theory Spec2Isabelle
  imports Main "HOL-Library.Multiset"
begin

section \<open>The query tool of \<open>llm4crs/query/query_tool.py\<close>\<close>

text \<open>
  The development embeds \<open>QueryTool\<close>: the constructor, \<open>run\<close> and \<open>rewrite_sql\<close>.
  Strings are ASCII texts (\<open>char list\<close>); Python's unbounded integers are \<open>int\<close>; a
  \<open>dict\<close> is an association list in insertion order (its keys are distinct, as the keys
  of a \<open>dict\<close> are); the records returned by the corpus
  live in an explicit store, since \<open>run\<close> copies and mutates them; every \<open>raise\<close> is a
  value \<open>Inl e\<close>; the \<open>while\<close> loop of \<open>run\<close> and the one of \<open>random.sample\<close> are
  partial functions in the option monad, where \<open>None\<close> means that the loop does not
  return.
\<close>

subsection \<open>Values, exceptions, strings\<close>

text \<open>
  A field of a record holds a Python \<open>str\<close>, \<open>int\<close>, \<open>bool\<close> or \<open>None\<close>
  (floating-point fields are outside the model).
\<close>

datatype pyval = VStr string | VInt int | VBool bool | VNone

text \<open>
  The exceptions the code can meet: a division by zero, \<open>random.sample\<close> refusing its
  argument, a missing key, and any exception raised by a collaborator (the corpus, the
  column extractor).
\<close>

datatype error = ZeroDivisionError | ValueError | KeyError | CollaboratorError

type_synonym pydict = "(string \<times> pyval) list"

definition digit_char :: "nat \<Rightarrow> char" where
  "digit_char d = char_of (48 + d)"

fun show_nat :: "nat \<Rightarrow> string" where
  "show_nat n = (if n < 10 then [digit_char n] else show_nat (n div 10) @ [digit_char (n mod 10)])"

declare show_nat.simps [simp del]

definition show_int :: "int \<Rightarrow> string" where
  "show_int i = (if i < 0 then CHR ''-'' # show_nat (nat (- i)) else show_nat (nat i))"

text \<open>\<open>str(v)\<close>.\<close>

fun py_str :: "pyval \<Rightarrow> string" where
  "py_str (VStr s) = s"
| "py_str (VInt i) = show_int i"
| "py_str (VBool b) = (if b then ''True'' else ''False'')"
| "py_str VNone = ''None''"

text \<open>\<open>v.split(" ")\<close>: every single space separates; the result is never empty.\<close>

fun split_space :: "string \<Rightarrow> string list" where
  "split_space [] = [[]]"
| "split_space (c # cs) =
     (if c = CHR '' '' then [] # split_space cs
      else (case split_space cs of
              [] \<Rightarrow> [[c]]
            | w # ws \<Rightarrow> (c # w) # ws))"

text \<open>\<open>sep.join(words)\<close>.\<close>

fun join_with :: "string \<Rightarrow> string list \<Rightarrow> string" where
  "join_with sep [] = []"
| "join_with sep [w] = w"
| "join_with sep (w # v # ws) = w @ sep @ join_with sep (v # ws)"

subsection \<open>\<open>json.dumps\<close> with its default separators and \<open>ensure_ascii\<close>\<close>

definition hex_char :: "nat \<Rightarrow> char" where
  "hex_char d = (if d < 10 then char_of (48 + d) else char_of (87 + d))"

definition json_escape :: "char \<Rightarrow> string" where
  "json_escape c =
     (if c = CHR 0x22 then [CHR 0x5C, CHR 0x22]
      else if c = CHR 0x5C then [CHR 0x5C, CHR 0x5C]
      else if c = CHR 0x0A then [CHR 0x5C, CHR ''n'']
      else if c = CHR 0x0D then [CHR 0x5C, CHR ''r'']
      else if c = CHR 0x09 then [CHR 0x5C, CHR ''t'']
      else if c = CHR 0x08 then [CHR 0x5C, CHR ''b'']
      else if c = CHR 0x0C then [CHR 0x5C, CHR ''f'']
      else if (32 :: nat) \<le> of_char c \<and> (of_char c :: nat) \<le> 126 then [c]
      else [CHR 0x5C, CHR ''u'', CHR ''0'', CHR ''0'',
            hex_char ((of_char c :: nat) div 16), hex_char ((of_char c :: nat) mod 16)])"

definition json_string :: "string \<Rightarrow> string" where
  "json_string s = CHR 0x22 # concat (map json_escape s) @ [CHR 0x22]"

fun json_value :: "pyval \<Rightarrow> string" where
  "json_value (VStr s) = json_string s"
| "json_value (VInt i) = show_int i"
| "json_value (VBool b) = (if b then ''true'' else ''false'')"
| "json_value VNone = ''null''"

definition json_dict :: "pydict \<Rightarrow> string" where
  "json_dict d =
     ''{'' @ join_with '', '' (map (\<lambda>(k, v). json_string k @ '': '' @ json_value v) d) @ ''}''"

definition json_list :: "pydict list \<Rightarrow> string" where
  "json_list ds = ''['' @ join_with '', '' (map json_dict ds) @ '']''"

subsection \<open>The store of records\<close>

text \<open>
  A record is a \<open>dict\<close> object. The store is the list of all allocated objects, an
  address is an index into it. \<open>deepcopy\<close> allocates a new object with the same
  content (the fields hold immutable values, so nothing below a record is shared).
\<close>

type_synonym addr = nat
type_synonym heap = "pydict list"

definition deepcopy :: "heap \<Rightarrow> addr \<Rightarrow> heap \<times> addr" where
  "deepcopy h a = (h @ [h ! a], length h)"

text \<open>\<open>json.dumps(res)\<close> for a list of references to records.\<close>

definition json_dumps :: "heap \<Rightarrow> addr list \<Rightarrow> string" where
  "json_dumps h res = json_list (map (\<lambda>a. h ! a) res)"

subsection \<open>One pass of the per-record loop (lines 71 to 93)\<close>

text \<open>
  The first \<open>for\<close> loop: \<open>key2token[k] = num_tokens_from_string(str(v))\<close>,
  \<open>all_token += key2token[k]\<close>, \<open>res_record[k] = str(v)\<close>. The token counter
  \<open>num_tokens_from_string\<close> is a collaborator: it is the parameter \<open>tok\<close>.
\<close>

definition key2token :: "(string \<Rightarrow> nat) \<Rightarrow> pydict \<Rightarrow> (string \<times> nat) list" where
  "key2token tok d = map (\<lambda>(k, v). (k, tok (py_str v))) d"

definition all_token :: "(string \<Rightarrow> nat) \<Rightarrow> pydict \<Rightarrow> nat" where
  "all_token tok d = sum_list (map snd (key2token tok d))"

definition stringify :: "pydict \<Rightarrow> (string \<times> string) list" where
  "stringify d = map (\<lambda>(k, v). (k, py_str v)) d"

text \<open>\<open>d[k]\<close> on a dict in insertion order.\<close>

definition lookup :: "(string \<times> 'a) list \<Rightarrow> string \<Rightarrow> error + 'a" where
  "lookup d k = (case map_of d k of None \<Rightarrow> Inl KeyError | Some v \<Rightarrow> Inr v)"

text \<open>
  \<open>cut_off_token = {k: (overflow_token * v // all_token) for k, v in key2token.items()}\<close>:
  the division raises when \<open>all_token\<close> is zero and there is a field to compute.
\<close>

definition cut_off_token :: "int \<Rightarrow> (string \<times> nat) list \<Rightarrow> nat \<Rightarrow> error + (string \<times> int) list" where
  "cut_off_token overflow_token k2t all_tok =
     (if k2t \<noteq> [] \<and> all_tok = 0 then Inl ZeroDivisionError
      else Inr (map (\<lambda>(k, v). (k, overflow_token * int v div int all_tok)) k2t))"

text \<open>
  The body of the second \<open>for\<close> loop for one field: the new text of the field and the
  value it gives \<open>_cut_last\<close>.
\<close>

definition cut_field :: "string \<Rightarrow> int \<Rightarrow> nat \<Rightarrow> error + string \<times> bool" where
  "cut_field v cut_off k2t =
     (let words = split_space v in
      if k2t = 0 then Inl ZeroDivisionError
      else
        let cut_word_cnt = min (int (length words) * cut_off div int k2t) (int (length words) - 3) in
        if cut_word_cnt \<ge> 1 \<and> length words > 10 then
          Inr (join_with '' '' (take (length words - nat cut_word_cnt) words) @ ''...'', True)
        else if cut_word_cnt \<ge> 1 \<and> length words > 5 then
          Inr (join_with '' '' (take (length words - 1) words) @ ''...'', True)
        else Inr (join_with '' '' words @ [], False))"

text \<open>
  The second \<open>for\<close> loop: the fields in order, each one overwriting \<open>_cut_last\<close>.
\<close>

fun cut_fields ::
  "(string \<times> int) list \<Rightarrow> (string \<times> nat) list \<Rightarrow> (string \<times> string) list \<Rightarrow> bool
     \<Rightarrow> error + (string \<times> string) list \<times> bool" where
  "cut_fields cot k2t [] cut_last = Inr ([], cut_last)"
| "cut_fields cot k2t ((k, v) # kvs) cut_last =
     (case lookup cot k of Inl e \<Rightarrow> Inl e | Inr c \<Rightarrow>
      (case lookup k2t k of Inl e \<Rightarrow> Inl e | Inr t \<Rightarrow>
       (case cut_field v c t of Inl e \<Rightarrow> Inl e | Inr (v', cl) \<Rightarrow>
        (case cut_fields cot k2t kvs cl of Inl e \<Rightarrow> Inl e
         | Inr (kvs', cl') \<Rightarrow> Inr ((k, v') # kvs', cl')))))"

definition shrink_pass ::
  "(string \<Rightarrow> nat) \<Rightarrow> int \<Rightarrow> pydict \<Rightarrow> bool \<Rightarrow> error + (string \<times> string) list \<times> bool" where
  "shrink_pass tok overflow_token d cut_last =
     (case cut_off_token overflow_token (key2token tok d) (all_token tok d) of
        Inl e \<Rightarrow> Inl e
      | Inr cot \<Rightarrow> cut_fields cot (key2token tok d) (stringify d) cut_last)"

definition as_dict :: "(string \<times> string) list \<Rightarrow> pydict" where
  "as_dict kvs = map (\<lambda>(k, s). (k, VStr s)) kvs"

subsection \<open>The per-record loop (lines 65 to 95)\<close>

text \<open>
  \<open>while (overflow_token > 0) and _cut_last\<close>, on the copy at address \<open>r\<close>. The last
  argument counts the passes executed; it is the only part that is not in the source. The
  loop is partial: \<open>None\<close> is a loop that runs forever.
\<close>

partial_function (option) shrink_loop ::
  "(string \<Rightarrow> nat) \<Rightarrow> int \<Rightarrow> addr \<Rightarrow> heap \<Rightarrow> int \<Rightarrow> bool \<Rightarrow> nat \<Rightarrow> (error + heap \<times> nat) option" where
  "shrink_loop tok token_limit_per_record r h overflow_token cut_last n =
     (if overflow_token > 0 \<and> cut_last then
        (case shrink_pass tok overflow_token (h ! r) cut_last of
           Inl e \<Rightarrow> Some (Inl e)
         | Inr p \<Rightarrow>
             shrink_loop tok token_limit_per_record r (h[r := as_dict (fst p)])
               (int (tok (json_dict ((h[r := as_dict (fst p)]) ! r))) - token_limit_per_record)
               (snd p) (Suc n))
      else Some (Inr (h, n)))"

declare shrink_loop.simps [code]

text \<open>
  The \<open>for\<close> loop over the records (lines 63 to 95): each record is copied, the copy is
  shrunk, and \<open>cut_res\<close> collects the references to the copies.
\<close>

fun shrink_records ::
  "(string \<Rightarrow> nat) \<Rightarrow> int \<Rightarrow> heap \<Rightarrow> addr list \<Rightarrow> (error + heap \<times> addr list) option" where
  "shrink_records tok token_limit_per_record h [] = Some (Inr (h, []))"
| "shrink_records tok token_limit_per_record h (a # as) =
     (let overflow_token = int (tok (json_dict (h ! a))) - token_limit_per_record;
          (h1, r) = deepcopy h a
      in case shrink_loop tok token_limit_per_record r h1 overflow_token True 0 of
           None \<Rightarrow> None
         | Some (Inl e) \<Rightarrow> Some (Inl e)
         | Some (Inr (h2, n)) \<Rightarrow>
             (case shrink_records tok token_limit_per_record h2 as of
                None \<Rightarrow> None
              | Some (Inl e) \<Rightarrow> Some (Inl e)
              | Some (Inr (h3, cut_res)) \<Rightarrow> Some (Inr (h3, r # cut_res))))"

subsection \<open>The record-count cap (lines 51 to 56)\<close>

text \<open>
  \<open>random.sample\<close> reads the generator of the \<open>random\<close> module, which belongs to the
  process and not to the tool. The generator is the sequence of its draws: the \<open>i\<close>-th
  call \<open>randbelow(b)\<close> returns \<open>g i mod b\<close>. \<open>random.sample(population, k)\<close> of CPython
  raises \<open>ValueError\<close> when \<open>k\<close> is negative or larger than the population, and then
  selects in one of two ways. With \<open>n\<close> the size of the population and
  \<open>setsize = 21\<close>, plus \<open>4 ** ceil(log(3 * k, 4))\<close> when \<open>k > 5\<close>:

    \<^item> if \<open>n \<le> setsize\<close>, it copies the population to a pool, and for \<open>i\<close> from 0 to
      \<open>k - 1\<close> takes \<open>j = randbelow(n - i)\<close>, selects \<open>pool[j]\<close> and moves
      \<open>pool[n - i - 1]\<close>, the last unselected element, to position \<open>j\<close>;

    \<^item> otherwise it keeps the set of the selected positions, and for each of the \<open>k\<close>
      elements takes \<open>j = randbelow(n)\<close> again and again until \<open>j\<close> is not in that set,
      adds \<open>j\<close> to the set and selects \<open>population[j]\<close>.

  The second way consumes as many draws as it needs and does not return when the
  generator never gives an unselected position, so it is a partial function. Both return
  the sample together with the number of draws consumed.
\<close>

type_synonym rng = "nat \<Rightarrow> nat"

text \<open>
  \<open>ceil_log4 m\<close> is the least \<open>e\<close> with \<open>m \<le> 4 ^ e\<close>, which is \<open>ceil(log(m, 4))\<close>
  (\<open>3 * k\<close> is no power of 4, so the rounding of the logarithm does not matter).
\<close>

function ceil_log4 :: "nat \<Rightarrow> nat" where
  "ceil_log4 m = (if m \<le> 1 then 0 else Suc (ceil_log4 ((m + 3) div 4)))"
  by pat_completeness auto

termination
  by (relation "measure (\<lambda>m. m)") auto

declare ceil_log4.simps [simp del]

definition setsize :: "nat \<Rightarrow> nat" where
  "setsize k = (if k > 5 then 21 + 4 ^ ceil_log4 (k * 3) else 21)"

text \<open>
  The first way. The pool of the model holds the unselected elements only, so
  \<open>n - i\<close> is its length and \<open>pool[n - i - 1]\<close> its last element. The pool is never
  empty when an element is drawn, since \<open>k\<close> is at most \<open>n\<close>.
\<close>

fun sample_pool :: "rng \<Rightarrow> nat \<Rightarrow> 'a list \<Rightarrow> nat \<Rightarrow> 'a list" where
  "sample_pool g i pool 0 = []"
| "sample_pool g i pool (Suc k) =
     (if pool = [] then []
      else pool ! (g i mod length pool)
             # sample_pool g (Suc i) (butlast (pool[g i mod length pool := last pool])) k)"

text \<open>
  The second way: \<open>draw_unselected\<close> is the inner \<open>while j in selected\<close> loop, from the
  draw \<open>i\<close> on; it returns the position and the index of the next draw.
\<close>

partial_function (option) draw_unselected ::
  "rng \<Rightarrow> nat \<Rightarrow> nat \<Rightarrow> nat list \<Rightarrow> (nat \<times> nat) option" where
  "draw_unselected g i n selected =
     (if g i mod n \<in> set selected then draw_unselected g (Suc i) n selected
      else Some (g i mod n, Suc i))"

declare draw_unselected.simps [code]

fun sample_set :: "rng \<Rightarrow> nat \<Rightarrow> 'a list \<Rightarrow> nat list \<Rightarrow> nat \<Rightarrow> ('a list \<times> nat) option" where
  "sample_set g i population selected 0 = Some ([], i)"
| "sample_set g i population selected (Suc k) =
     (case draw_unselected g i (length population) selected of
        None \<Rightarrow> None
      | Some (j, i') \<Rightarrow>
          (case sample_set g i' population (j # selected) k of
             None \<Rightarrow> None
           | Some (rest, i'') \<Rightarrow> Some (population ! j # rest, i'')))"

definition random_sample :: "rng \<Rightarrow> 'a list \<Rightarrow> int \<Rightarrow> (error + 'a list \<times> nat) option" where
  "random_sample g population k =
     (if k < 0 \<or> int (length population) < k then Some (Inl ValueError)
      else if length population \<le> setsize (nat k)
        then Some (Inr (sample_pool g 0 population (nat k), nat k))
      else map_option Inr (sample_set g 0 population [] (nat k)))"

text \<open>
  Lines 51 to 56: \<open>if len(res) > self._max_record_num\<close>, the records are replaced by
  the sample and \<open>_any_cut\<close> is set.
\<close>

definition cap_records :: "rng \<Rightarrow> int \<Rightarrow> 'a list \<Rightarrow> (error + 'a list \<times> bool) option" where
  "cap_records g max_record_num res =
     (if int (length res) > max_record_num then
        (case random_sample g res max_record_num of
           None \<Rightarrow> None
         | Some (Inl e) \<Rightarrow> Some (Inl e)
         | Some (Inr (sampled, used)) \<Rightarrow> Some (Inr (sampled, True)))
      else Some (Inr (res, False)))"

subsection \<open>The corpus and the tool\<close>

text \<open>
  The corpus is a collaborator. The tool reads its name, the keys of \<open>column_meaning\<close>,
  the keys of \<open>fuzzy_engine\<close>, the text that formatting
  \<open>categorical_col_values.keys()\<close> gives, and calls \<open>fuzzy_match\<close> and the corpus itself;
  both calls may raise. The result of a query is the list of its records, as
  \<open>to_dict('records')\<close> returns it.
\<close>

record corpus =
  corpus_name :: string
  column_meaning :: "string list"
  categorical_keys :: string
  fuzzy_engine :: "string list"
  fuzzy_match :: "string \<Rightarrow> string \<Rightarrow> error + string"
  execute :: "string \<Rightarrow> error + pydict list"

record QueryTool =
  item_corpus :: corpus
  name :: string
  desc :: string
  buffer :: "(string \<times> string \<times> string) list"
  result_max_token :: int
  max_record_num :: int

definition QueryTool_init ::
  "string \<Rightarrow> string \<Rightarrow> corpus \<Rightarrow> (string \<times> string \<times> string) list \<Rightarrow> int \<Rightarrow> QueryTool" where
  "QueryTool_init nm ds c buf rmt =
     \<lparr>item_corpus = c, name = nm, desc = ds, buffer = buf,
      result_max_token = rmt, max_record_num = rmt div 5\<rparr>"

subsection \<open>\<open>rewrite_sql\<close> (lines 122 to 156)\<close>

text \<open>
  The character classes of the two patterns on ASCII text: \<open>\w\<close>, which is also
  \<open>[a-zA-Z0-9_]\<close>, and \<open>\s\<close>; and the lower case of a letter, for \<open>re.IGNORECASE\<close>.
\<close>

definition is_word_char :: "char \<Rightarrow> bool" where
  "is_word_char c =
     ((97 \<le> (of_char c :: nat) \<and> (of_char c :: nat) \<le> 122)
      \<or> (65 \<le> (of_char c :: nat) \<and> (of_char c :: nat) \<le> 90)
      \<or> (48 \<le> (of_char c :: nat) \<and> (of_char c :: nat) \<le> 57)
      \<or> c = CHR ''_'')"

definition is_space_char :: "char \<Rightarrow> bool" where
  "is_space_char c = (c \<in> set [CHR '' '', CHR 0x09, CHR 0x0A, CHR 0x0B, CHR 0x0C, CHR 0x0D,
                                  CHR 0x1C, CHR 0x1D, CHR 0x1E, CHR 0x1F])"

definition lower_char :: "char \<Rightarrow> char" where
  "lower_char c =
     (if 65 \<le> (of_char c :: nat) \<and> (of_char c :: nat) \<le> 90
      then char_of ((of_char c :: nat) + 32) else c)"

text \<open>A literal at the head of the text; the result is the text after it.\<close>

fun strip_prefix :: "string \<Rightarrow> string \<Rightarrow> string option" where
  "strip_prefix [] s = Some s"
| "strip_prefix (p # ps) [] = None"
| "strip_prefix (p # ps) (c # cs) = (if p = c then strip_prefix ps cs else None)"

fun strip_prefix_nocase :: "string \<Rightarrow> string \<Rightarrow> string option" where
  "strip_prefix_nocase [] s = Some s"
| "strip_prefix_nocase (p # ps) [] = None"
| "strip_prefix_nocase (p # ps) (c # cs) =
     (if lower_char p = lower_char c then strip_prefix_nocase ps cs else None)"

text \<open>
  The pattern \<open>FROM\s+(\w+)\s+WHERE\<close> under \<open>re.IGNORECASE\<close> at the head of the text.
  The classes \<open>\s\<close> and \<open>\w\<close> are disjoint and \<open>W\<close> is not in \<open>\s\<close>, so the greedy
  match is the only one.
\<close>

definition match_from_where :: "string \<Rightarrow> string option" where
  "match_from_where s =
     (case strip_prefix_nocase ''FROM'' s of
        None \<Rightarrow> None
      | Some s1 \<Rightarrow>
          if takeWhile is_space_char s1 = [] then None
          else if takeWhile is_word_char (dropWhile is_space_char s1) = [] then None
          else if takeWhile is_space_char (dropWhile is_word_char (dropWhile is_space_char s1)) = []
            then None
          else strip_prefix_nocase ''WHERE''
                 (dropWhile is_space_char (dropWhile is_word_char (dropWhile is_space_char s1))))"

text \<open>
  \<open>re.sub(r'\bFROM\s+(\w+)\s+WHERE', repl, sql, flags=re.IGNORECASE)\<close>: the text is read
  from left to right, every match is replaced and reading goes on after it. \<open>prev\<close> says
  whether the character before is a word character (for \<open>\b\<close>), \<open>skip\<close> counts the
  characters of a match still to pass over. The replacement is taken as it is (the name
  of a table has no backslash for the template to read).
\<close>

fun sub_from_where :: "string \<Rightarrow> bool \<Rightarrow> nat \<Rightarrow> string \<Rightarrow> string" where
  "sub_from_where repl prev skip [] = []"
| "sub_from_where repl prev skip (c # cs) =
     (if skip > 0 then sub_from_where repl (is_word_char c) (skip - 1) cs
      else if prev then c # sub_from_where repl (is_word_char c) 0 cs
      else (case match_from_where (c # cs) of
              None \<Rightarrow> c # sub_from_where repl (is_word_char c) 0 cs
            | Some rest \<Rightarrow>
                repl @ sub_from_where repl (is_word_char c) (length cs - length rest) cs))"

text \<open>
  The pattern \<open>([a-zA-Z0-9_]+) (?:NOT )?LIKE '\%([^\%]+)\%'\<close> at the head of the text:
  the two groups and the text after the match.
\<close>

definition match_like :: "string \<Rightarrow> ((string \<times> string) \<times> string) option" where
  "match_like s =
     (if takeWhile is_word_char s = [] then None
      else case strip_prefix '' '' (dropWhile is_word_char s) of
        None \<Rightarrow> None
      | Some s2 \<Rightarrow>
          (case strip_prefix (''LIKE '' @ [CHR 0x27, CHR ''%''])
                  (case strip_prefix ''NOT '' s2 of None \<Rightarrow> s2 | Some s3 \<Rightarrow> s3) of
             None \<Rightarrow> None
           | Some s4 \<Rightarrow>
               if takeWhile (\<lambda>c. c \<noteq> CHR ''%'') s4 = [] then None
               else (case strip_prefix [CHR ''%'', CHR 0x27] (dropWhile (\<lambda>c. c \<noteq> CHR ''%'') s4) of
                       None \<Rightarrow> None
                     | Some rest \<Rightarrow>
                         Some ((takeWhile is_word_char s, takeWhile (\<lambda>c. c \<noteq> CHR ''%'') s4), rest))))"

text \<open>\<open>re.findall(pattern, sql)\<close>.\<close>

fun findall_like :: "nat \<Rightarrow> string \<Rightarrow> (string \<times> string) list" where
  "findall_like skip [] = []"
| "findall_like skip (c # cs) =
     (if skip > 0 then findall_like (skip - 1) cs
      else (case match_like (c # cs) of
              None \<Rightarrow> findall_like 0 cs
            | Some (m, rest) \<Rightarrow> m # findall_like (length cs - length rest) cs))"

text \<open>\<open>s.replace(old, new)\<close>: every occurrence from left to right, none overlapping.\<close>

fun replace_from :: "string \<Rightarrow> string \<Rightarrow> nat \<Rightarrow> string \<Rightarrow> string" where
  "replace_from old new skip [] = []"
| "replace_from old new skip (c # cs) =
     (if skip > 0 then replace_from old new (skip - 1) cs
      else if strip_prefix old (c # cs) \<noteq> None
        then new @ replace_from old new (length old - 1) cs
      else c # replace_from old new 0 cs)"

definition py_replace :: "string \<Rightarrow> string \<Rightarrow> string \<Rightarrow> string" where
  "py_replace s old new =
     (if old = [] then new @ concat (map (\<lambda>c. c # new) s) else replace_from old new 0 s)"

text \<open>\<open>d[k] = v\<close> on a dict in insertion order.\<close>

fun dict_set :: "(string \<times> 'a) list \<Rightarrow> string \<Rightarrow> 'a \<Rightarrow> (string \<times> 'a) list" where
  "dict_set [] k v = [(k, v)]"
| "dict_set ((k', v') # d) k v = (if k' = k then (k, v) # d else (k', v') # dict_set d k v)"

text \<open>The loop of lines 135 to 138.\<close>

fun ground_cols :: "corpus \<Rightarrow> string list \<Rightarrow> (string \<times> string) list \<Rightarrow> error + (string \<times> string) list" where
  "ground_cols c [] col_replace_dict = Inr col_replace_dict"
| "ground_cols c (col # cols) col_replace_dict =
     (if col \<notin> set (column_meaning c) then
        (case fuzzy_match c col ''sql_cols'' of
           Inl e \<Rightarrow> Inl e
         | Inr mapped_col \<Rightarrow> ground_cols c cols (dict_set col_replace_dict col mapped_col))
      else ground_cols c cols col_replace_dict)"

text \<open>The loops of lines 139 to 140 and 153 to 154.\<close>

fun replace_all :: "(string \<times> string) list \<Rightarrow> string \<Rightarrow> string" where
  "replace_all [] sql = sql"
| "replace_all ((k, v) # d) sql = replace_all d (py_replace sql k v)"

text \<open>The loop of lines 146 to 151.\<close>

fun ground_values ::
  "corpus \<Rightarrow> (string \<times> string) list \<Rightarrow> (string \<times> string) list \<Rightarrow> error + (string \<times> string) list" where
  "ground_values c [] replace_dict = Inr replace_dict"
| "ground_values c ((col, val) # res) replace_dict =
     (if col \<notin> set (fuzzy_engine c) then ground_values c res replace_dict
      else (case fuzzy_match c val col of
              Inl e \<Rightarrow> Inl e
            | Inr replace_value \<Rightarrow>
                ground_values c res
                  (dict_set replace_dict (''%'' @ val @ ''%'')
                     (''%'' @ py_replace replace_value [CHR 0x27] [CHR 0x27, CHR 0x27] @ ''%''))))"

text \<open>
  \<open>extract_columns_from_where\<close> of \<open>llm4crs.utils.sql\<close> is a collaborator that is not
  among the sources: it is a parameter, and it may raise.
\<close>

definition rewrite_sql :: "(string \<Rightarrow> error + string list) \<Rightarrow> corpus \<Rightarrow> string \<Rightarrow> error + string" where
  "rewrite_sql extract_columns_from_where c sql =
     (case extract_columns_from_where
             (sub_from_where (''FROM '' @ corpus_name c @ '' WHERE'') False 0 sql) of
        Inl e \<Rightarrow> Inl e
      | Inr cols \<Rightarrow>
          (case ground_cols c cols [] of
             Inl e \<Rightarrow> Inl e
           | Inr col_replace_dict \<Rightarrow>
               (case ground_values c
                       (findall_like 0
                          (replace_all col_replace_dict
                             (sub_from_where (''FROM '' @ corpus_name c @ '' WHERE'') False 0 sql)))
                       [] of
                  Inl e \<Rightarrow> Inl e
                | Inr replace_dict \<Rightarrow>
                    Inr (replace_all replace_dict
                           (replace_all col_replace_dict
                              (sub_from_where (''FROM '' @ corpus_name c @ '' WHERE'') False 0 sql))))))"

subsection \<open>\<open>run\<close> (lines 31 to 120)\<close>

definition broken_message :: "string \<Rightarrow> string" where
  "broken_message nm =
     nm @ '': some thing went wrong in execution, the tool is broken for current input. ''
        @ [CHR 0x0A]"

definition rewrite_notice :: "string \<Rightarrow> string \<Rightarrow> string \<Rightarrow> string" where
  "rewrite_notice nm inputs keys =
     nm @ '': The input SQL is rewritten as '' @ inputs @ '' because some '' @ keys
        @ '' are not existing. '' @ [CHR 0x0A]"

definition omitted_notice :: "string \<Rightarrow> string" where
  "omitted_notice nm = nm @ '': The search result is too long, some are omitted. '' @ [CHR 0x0A]"

definition default_output :: string where
  "default_output = ''can not seach related information.''"

text \<open>
  Lines 59 to 110, after the cap: the pair of \<open>info\<close> and \<open>output\<close>. The records are
  the objects of the store \<open>h\<close>, \<open>res\<close> holds the references to them.

  \<open>num_tokens_from_string\<close> and \<open>cut_list\<close> come from \<open>llm4crs.utils\<close>, which is not
  among the sources: both are parameters, functions that return. \<open>tok\<close> is the token
  counter. \<open>cut_list\<close> is given the records of \<open>cut_res\<close> and the budget, and gives the
  records that are serialized in their place.
\<close>

definition truncate_output ::
  "(string \<Rightarrow> nat) \<Rightarrow> (pydict list \<Rightarrow> int \<Rightarrow> pydict list) \<Rightarrow> QueryTool \<Rightarrow> string
     \<Rightarrow> heap \<Rightarrow> addr list \<Rightarrow> bool \<Rightarrow> (error + string \<times> string) option" where
  "truncate_output tok cut_list self info h res any_cut =
     (if int (tok (json_dumps h res)) > result_max_token self then
        (case shrink_records tok (result_max_token self div (int (length res) + 1)) h res of
           None \<Rightarrow> None
         | Some (Inl e) \<Rightarrow> Some (Inl e)
         | Some (Inr (h', cut_res)) \<Rightarrow>
             (let info1 = (if any_cut then info @ omitted_notice (name self) else info);
                  output = (if int (tok (json_dumps h' cut_res)) > result_max_token self
                            then json_list (cut_list (map (\<lambda>a. h' ! a) cut_res)
                                              (result_max_token self))
                            else json_dumps h' cut_res)
              in Some (Inr (info1 @ name self @ '' search result: '' @ output, output))))
      else Some (Inr (info @ name self @ '' search result: '' @ json_dumps h res,
                      json_dumps h res)))"

text \<open>The body of the second \<open>try\<close> (lines 46 to 110).\<close>

definition search ::
  "(string \<Rightarrow> nat) \<Rightarrow> (pydict list \<Rightarrow> int \<Rightarrow> pydict list) \<Rightarrow> rng \<Rightarrow> QueryTool
     \<Rightarrow> string \<Rightarrow> string \<Rightarrow> (error + string \<times> string) option" where
  "search tok cut_list g self inputs info =
     (case execute (item_corpus self) inputs of
        Inl e \<Rightarrow> Some (Inl e)
      | Inr records \<Rightarrow>
          (case cap_records g (max_record_num self) [0..<length records] of
             None \<Rightarrow> None
           | Some (Inl e) \<Rightarrow> Some (Inl e)
           | Some (Inr (res, any_cut)) \<Rightarrow>
               truncate_output tok cut_list self info records res any_cut))"

text \<open>
  What \<open>run\<close> leaves: the string it returns, the text of \<open>info\<close> at that moment (the
  text given to the logger on the paths that log it), and the usage buffer.
\<close>

record run_result =
  returned :: string
  final_info :: string
  tracked :: "(string \<times> string \<times> string) list"

definition run ::
  "(string \<Rightarrow> nat) \<Rightarrow> (pydict list \<Rightarrow> int \<Rightarrow> pydict list)
     \<Rightarrow> (string \<Rightarrow> error + string list) \<Rightarrow> rng \<Rightarrow> QueryTool \<Rightarrow> string \<Rightarrow> run_result option" where
  "run tok cut_list extract_columns_from_where g self inputs =
     (case rewrite_sql extract_columns_from_where (item_corpus self) inputs of
        Inl e \<Rightarrow>
          Some \<lparr>returned = broken_message (name self),
                final_info = broken_message (name self),
                tracked = buffer self\<rparr>
      | Inr rewritten \<Rightarrow>
          (case search tok cut_list g self rewritten
                  (rewrite_notice (name self) rewritten (categorical_keys (item_corpus self))) of
             None \<Rightarrow> None
           | Some (Inl e) \<Rightarrow>
               Some \<lparr>returned = default_output,
                     final_info =
                       rewrite_notice (name self) rewritten (categorical_keys (item_corpus self))
                         @ broken_message (name self),
                     tracked = buffer self @ [(name self, rewritten, ''Some item information.'')]\<rparr>
           | Some (Inr (info, output)) \<Rightarrow>
               Some \<lparr>returned = output,
                     final_info = info,
                     tracked = buffer self @ [(name self, rewritten, ''Some item information.'')]\<rparr>))"

subsection \<open>The last cut (line 103)\<close>

text \<open>
  Modelled from the spec: \<open>cut_list\<close> of \<open>llm4crs.utils\<close> is not among the sources. The
  specification calls it one last unconditional truncation of the serialized payload to
  a length implied by the budget, lossy but bounded; the code calls it on the list of the
  shrunk records with the budget, to \<open>shorten the result list\<close> (line 101). In the model
  it counts tokens with the counter of the tool and drops records from the end of the
  list until the serialized list has at most \<open>budget\<close> tokens; when no record can be
  kept, the list is empty. \<open>cut_to\<close> tries to keep the first \<open>n\<close> records.
\<close>

fun cut_to :: "(string \<Rightarrow> nat) \<Rightarrow> pydict list \<Rightarrow> int \<Rightarrow> nat \<Rightarrow> pydict list" where
  "cut_to tok records budget 0 = []"
| "cut_to tok records budget (Suc n) =
     (if int (tok (json_list (take (Suc n) records))) \<le> budget then take (Suc n) records
      else cut_to tok records budget n)"

definition cut_list :: "(string \<Rightarrow> nat) \<Rightarrow> pydict list \<Rightarrow> int \<Rightarrow> pydict list" where
  "cut_list tok records budget = cut_to tok records budget (length records)"

subsection \<open>Measures of the statements\<close>

text \<open>
  The pieces of a text are what \<open>split(" ")\<close> gives: the runs of characters between
  spaces, the empty runs included (before a leading space, between two adjacent spaces,
  after a trailing space). The words of a text are its pieces that are not empty.
  \<open>word_count\<close> is the number of pieces of the fields of a record, which is what the
  loop counts as \<open>len(words)\<close>; \<open>text_words\<close> is the same for a record whose fields are
  texts.
\<close>

definition word_count :: "pydict \<Rightarrow> nat" where
  "word_count d = sum_list (map (\<lambda>(k, v). length (split_space (py_str v))) d)"

definition text_words :: "(string \<times> string) list \<Rightarrow> nat" where
  "text_words kvs = sum_list (map (\<lambda>(k, s). length (split_space s)) kvs)"

definition nonempty_words :: "string \<Rightarrow> string list" where
  "nonempty_words s = filter (\<lambda>w. w \<noteq> []) (split_space s)"

subsection \<open>Inputs of the examples\<close>

text \<open>
  Token counters for the examples: one token for each character, and one token for each
  piece between spaces.
\<close>

definition char_tokens :: "string \<Rightarrow> nat" where
  "char_tokens s = length s"

definition piece_tokens :: "string \<Rightarrow> nat" where
  "piece_tokens s = length (split_space s)"

text \<open>
  Two records with the same fields in opposite orders; a record whose first field is
  empty; a record whose field is twelve spaces.
\<close>

definition rec_blank :: pydict where
  "rec_blank = [(''a'', VStr ''''), (''b'', VStr ''a b c d e f g h i j k l'')]"

definition rec_spaces :: pydict where
  "rec_spaces = [(''t'', VStr (replicate 12 (CHR '' '')))]"

definition rec_ab :: pydict where
  "rec_ab = [(''a'', VStr ''a b c d e f g h i j k l''), (''b'', VStr ''x'')]"

definition rec_ba :: pydict where
  "rec_ba = [(''b'', VStr ''x''), (''a'', VStr ''a b c d e f g h i j k l'')]"

text \<open>
  The query of the scenario, the query after the \<open>FROM\<close> target is replaced, and the
  query the scenario expects.
\<close>

definition scenario_query :: string where
  "scenario_query =
     ''SELECT * FROM unknown_table WHERE colr LIKE '' @ [CHR 0x27] @ ''%cofee%'' @ [CHR 0x27]"

definition normalized_query :: string where
  "normalized_query =
     ''SELECT * FROM items WHERE colr LIKE '' @ [CHR 0x27] @ ''%cofee%'' @ [CHR 0x27]"

definition grounded_query :: string where
  "grounded_query =
     ''SELECT * FROM items WHERE color LIKE '' @ [CHR 0x27] @ ''%coffee%'' @ [CHR 0x27]"

text \<open>
  A corpus named \<open>items\<close> with the column \<open>color\<close>, whose query returns two records;
  the same corpus with a query that raises; a column extractor for the scenario and one
  that raises.
\<close>

definition items_corpus :: corpus where
  "items_corpus =
     \<lparr>corpus_name = ''items'',
      column_meaning = [''color''],
      categorical_keys = ''dict_keys(['' @ [CHR 0x27] @ ''color'' @ [CHR 0x27] @ ''])'',
      fuzzy_engine = [''sql_cols'', ''color''],
      fuzzy_match = (\<lambda>token domain.
         if token = ''colr'' \<and> domain = ''sql_cols'' then Inr ''color''
         else if token = ''cofee'' \<and> domain = ''color'' then Inr ''coffee''
         else Inr token),
      execute = (\<lambda>q. Inr [[(''color'', VStr ''coffee'')], [(''color'', VStr ''cream'')]])\<rparr>"

definition failing_corpus :: corpus where
  "failing_corpus = items_corpus\<lparr>execute := (\<lambda>q. Inl CollaboratorError)\<rparr>"

text \<open>The same corpus with a query that returns the record \<open>rec_blank\<close>.\<close>

definition blank_corpus :: corpus where
  "blank_corpus = items_corpus\<lparr>execute := (\<lambda>q. Inr [rec_blank])\<rparr>"

definition where_columns :: "string \<Rightarrow> error + string list" where
  "where_columns q = (if q = normalized_query then Inr [''colr''] else Inr [])"

definition no_columns :: "string \<Rightarrow> error + string list" where
  "no_columns q = Inl CollaboratorError"

text \<open>Tools built by the constructor, with budgets 512, 259, 80 and 5.\<close>

definition look_up :: QueryTool where
  "look_up = QueryTool_init ''look_up'' ''searches the items'' items_corpus [] 512"

definition failing_look_up :: QueryTool where
  "failing_look_up = QueryTool_init ''look_up'' ''searches the items'' failing_corpus [] 512"

definition wide_look_up :: QueryTool where
  "wide_look_up = QueryTool_init ''look_up'' ''searches the items'' items_corpus [] 259"

definition tight_look_up :: QueryTool where
  "tight_look_up = QueryTool_init ''look_up'' ''searches the items'' items_corpus [] 80"

definition small_look_up :: QueryTool where
  "small_look_up = QueryTool_init ''look_up'' ''searches the items'' items_corpus [] 5"

text \<open>A tool on the corpus \<open>blank_corpus\<close>, with the budget 30.\<close>

definition blank_look_up :: QueryTool where
  "blank_look_up = QueryTool_init ''look_up'' ''searches the items'' blank_corpus [] 30"

text \<open>
  States of the generator of the \<open>random\<close> module: the draws are all 0; all 1; 0 and
  then 1; 27, 27 and then 1; 27, 27, 1 and then 2.
\<close>

definition zero_draws :: rng where
  "zero_draws i = 0"

definition one_draws :: rng where
  "one_draws i = 1"

definition late_draws :: rng where
  "late_draws i = (if i = 0 then 0 else 1)"

definition repeat_draws :: rng where
  "repeat_draws i = (if i < 2 then 27 else 1)"

definition repeat_draws_then :: rng where
  "repeat_draws_then i = (if i < 2 then 27 else if i = 2 then 1 else 2)"

section \<open>Properties\<close>

subsection \<open>Splitting and joining on spaces\<close>

lemma split_space_nonempty: "split_space s \<noteq> []"
  by (induction s) (auto split: list.splits)

lemma join_split_space: "join_with '' '' (split_space s) = s"
proof (induction s)
  case Nil
  then show ?case by simp
next
  case (Cons c cs)
  obtain w ws where ws: "split_space cs = w # ws"
    using split_space_nonempty [of cs] by (cases "split_space cs") auto
  show ?case
  proof (cases "c = CHR '' ''")
    case True
    then show ?thesis using Cons ws by simp
  next
    case False
    then show ?thesis using Cons ws by (cases ws) auto
  qed
qed

lemma split_space_no_space: "w \<in> set (split_space s) \<Longrightarrow> CHR '' '' \<notin> set w"
proof (induction s arbitrary: w)
  case Nil
  then show ?case by simp
next
  case (Cons c cs)
  then show ?case
    by (auto split: if_splits list.splits)
qed

lemma split_space_append_word:
  "CHR '' '' \<notin> set u \<Longrightarrow> split_space (s @ u) = butlast (split_space s) @ [last (split_space s) @ u]"
proof (induction s)
  case Nil
  then show ?case
  proof (induction u)
    case Nil
    then show ?case by simp
  next
    case (Cons c cs)
    then show ?case by (auto split: list.splits)
  qed
next
  case (Cons c cs)
  then show ?case
    using split_space_nonempty [of cs] split_space_nonempty [of "cs @ u"]
    by (auto split: list.splits)
qed

lemma length_split_space_append_word:
  "CHR '' '' \<notin> set u \<Longrightarrow> length (split_space (s @ u)) = length (split_space s)"
  using split_space_nonempty [of s] by (simp add: split_space_append_word)

lemma split_space_word_sep:
  "CHR '' '' \<notin> set w \<Longrightarrow> split_space (w @ CHR '' '' # s) = w # split_space s"
  by (induction w) auto

lemma split_join_space:
  "ws \<noteq> [] \<Longrightarrow> \<forall>w \<in> set ws. CHR '' '' \<notin> set w \<Longrightarrow> split_space (join_with '' '' ws) = ws"
proof (induction ws)
  case Nil
  then show ?case by simp
next
  case (Cons w ws)
  show ?case
  proof (cases ws)
    case Nil
    then show ?thesis
      using Cons.prems split_space_append_word [of w "[]"] by simp
  next
    case (Cons v vs)
    then show ?thesis
      using Cons.IH Cons.prems by (simp add: split_space_word_sep)
  qed
qed

lemma length_split_cut:
  assumes "0 < m" "m \<le> length (split_space s)"
  shows "length (split_space (join_with '' '' (take m (split_space s)) @ ''...'')) = m"
proof -
  have ne: "take m (split_space s) \<noteq> []"
    using assms split_space_nonempty [of s] by (cases "split_space s") auto
  have ns: "\<forall>w \<in> set (take m (split_space s)). CHR '' '' \<notin> set w"
    using split_space_no_space by (meson in_set_takeD)
  have "length (split_space (join_with '' '' (take m (split_space s)) @ ''...''))
        = length (split_space (join_with '' '' (take m (split_space s))))"
    by (rule length_split_space_append_word) simp
  also have "\<dots> = length (take m (split_space s))"
    using split_join_space [OF ne ns] by simp
  also have "\<dots> = m" using assms by simp
  finally show ?thesis .
qed

subsection \<open>What one pass does to a field and to the word count\<close>

lemma cut_field_cases:
  assumes "cut_field v c t = Inr (v', b)"
  shows "(\<not> b \<and> v' = v) \<or>
         (b \<and> 5 < length (split_space v) \<and>
          (\<exists>m. 3 \<le> m \<and> m < length (split_space v) \<and>
               v' = join_with '' '' (take m (split_space v)) @ ''...''))"
proof -
  let ?ws = "split_space v"
  let ?cnt = "min (int (length ?ws) * c div int t) (int (length ?ws) - 3)"
  from assms have t: "t \<noteq> 0"
    by (auto simp: cut_field_def Let_def split: if_splits)
  consider (long) "1 \<le> ?cnt" "10 < length ?ws"
    | (mid) "1 \<le> ?cnt" "\<not> 10 < length ?ws" "5 < length ?ws"
    | (keep) "\<not> (1 \<le> ?cnt \<and> 10 < length ?ws)" "\<not> (1 \<le> ?cnt \<and> 5 < length ?ws)"
    by linarith
  then show ?thesis
  proof cases
    case long
    then have r: "v' = join_with '' '' (take (length ?ws - nat ?cnt) ?ws) @ ''...''" "b"
      using assms t by (auto simp: cut_field_def Let_def)
    have "3 \<le> length ?ws - nat ?cnt" "length ?ws - nat ?cnt < length ?ws"
      using long by linarith+
    then show ?thesis using r long by auto
  next
    case mid
    then have r: "v' = join_with '' '' (take (length ?ws - 1) ?ws) @ ''...''" "b"
      using assms t by (auto simp: cut_field_def Let_def)
    have "3 \<le> length ?ws - 1" "length ?ws - 1 < length ?ws"
      using mid by linarith+
    then show ?thesis using r mid by auto
  next
    case keep
    then have "v' = join_with '' '' ?ws" "\<not> b"
      using assms t by (auto simp: cut_field_def Let_def split: if_splits)
    then show ?thesis by (simp add: join_split_space)
  qed
qed

lemma cut_field_words:
  assumes "cut_field v c t = Inr (v', b)"
  shows "length (split_space v') \<le> length (split_space v)"
    and "b \<Longrightarrow> length (split_space v') < length (split_space v)"
  using cut_field_cases [OF assms] by (auto simp: length_split_cut)

lemma cut_fields_words:
  "cut_fields cot k2t kvs0 cl = Inr (kvs, cl') \<Longrightarrow>
     length kvs = length kvs0 \<and> text_words kvs \<le> text_words kvs0 \<and>
     (kvs0 \<noteq> [] \<and> cl' \<longrightarrow> text_words kvs < text_words kvs0)"
proof (induction kvs0 arbitrary: cl kvs cl')
  case Nil
  then show ?case by (simp add: text_words_def)
next
  case (Cons kv rest)
  obtain k v where kv: "kv = (k, v)" by (cases kv)
  from Cons.prems kv obtain c t v' b rest' where
    f: "cut_field v c t = Inr (v', b)" and
    r: "cut_fields cot k2t rest b = Inr (rest', cl')" and
    k: "kvs = (k, v') # rest'"
    by (auto split: sum.splits prod.splits)
  note ih = Cons.IH [OF r]
  note w = cut_field_words [OF f]
  show ?case
  proof (cases rest)
    case Nil
    then have "cl' = b" "rest' = []" using r by auto
    then show ?thesis using w k kv Nil by (auto simp: text_words_def)
  next
    case (Cons a list)
    then show ?thesis using ih w(1) k kv by (auto simp: text_words_def)
  qed
qed

lemma cut_fields_rule:
  "cut_fields cot k2t kvs0 cl = Inr (kvs, cl') \<Longrightarrow>
     list_all2 (\<lambda>(k, v) (k', v'). k' = k \<and>
        (v' = v \<or> (5 < length (split_space v) \<and>
          (\<exists>c. 1 \<le> c \<and> c \<le> length (split_space v) - 3 \<and>
             v' = join_with '' '' (take (length (split_space v) - c) (split_space v)) @ ''...''))))
       kvs0 kvs"
proof (induction kvs0 arbitrary: cl kvs cl')
  case Nil
  then show ?case by simp
next
  case (Cons kv rest)
  obtain k v where kv: "kv = (k, v)" by (cases kv)
  from Cons.prems kv obtain c t v' b rest' where
    f: "cut_field v c t = Inr (v', b)" and
    r: "cut_fields cot k2t rest b = Inr (rest', cl')" and
    k: "kvs = (k, v') # rest'"
    by (auto split: sum.splits prod.splits)
  have "v' = v \<or> (5 < length (split_space v) \<and>
          (\<exists>c. 1 \<le> c \<and> c \<le> length (split_space v) - 3 \<and>
             v' = join_with '' '' (take (length (split_space v) - c) (split_space v)) @ ''...''))"
  proof -
    from cut_field_cases [OF f] consider "v' = v"
      | m where "5 < length (split_space v)" "3 \<le> m" "m < length (split_space v)"
          "v' = join_with '' '' (take m (split_space v)) @ ''...''"
      by blast
    then show ?thesis
    proof cases
      case 1
      then show ?thesis by simp
    next
      case 2
      let ?c = "length (split_space v) - m"
      have "1 \<le> ?c" "?c \<le> length (split_space v) - 3" "length (split_space v) - ?c = m"
        using 2 by linarith+
      then show ?thesis using 2 by metis
    qed
  qed
  then show ?case using Cons.IH [OF r] k kv by simp
qed

lemma text_words_stringify: "text_words (stringify d) = word_count d"
  by (induction d) (auto simp: text_words_def stringify_def word_count_def)

lemma word_count_as_dict: "word_count (as_dict kvs) = text_words kvs"
  by (induction kvs) (auto simp: text_words_def as_dict_def word_count_def)

lemma word_count_pos: "d \<noteq> [] \<Longrightarrow> 0 < word_count d"
  using split_space_nonempty by (cases d) (auto simp: word_count_def)

lemma shrink_pass_words:
  assumes "shrink_pass tok ov d cl = Inr (kvs, cl')"
  shows "length kvs = length d"
    and "word_count (as_dict kvs) \<le> word_count d"
    and "d \<noteq> [] \<Longrightarrow> cl' \<Longrightarrow> word_count (as_dict kvs) < word_count d"
proof -
  from assms obtain cot where
    "cut_fields cot (key2token tok d) (stringify d) cl = Inr (kvs, cl')"
    by (auto simp: shrink_pass_def split: sum.splits)
  from cut_fields_words [OF this]
  have "length kvs = length (stringify d) \<and> text_words kvs \<le> text_words (stringify d) \<and>
     (stringify d \<noteq> [] \<and> cl' \<longrightarrow> text_words kvs < text_words (stringify d))" .
  moreover have "length (stringify d) = length d" "stringify d = [] \<longleftrightarrow> d = []"
    by (simp_all add: stringify_def)
  ultimately show "length kvs = length d" "word_count (as_dict kvs) \<le> word_count d"
    "d \<noteq> [] \<Longrightarrow> cl' \<Longrightarrow> word_count (as_dict kvs) < word_count d"
    by (simp_all add: text_words_stringify word_count_as_dict)
qed

text \<open>
  Claim C7, as the code has it. What the loop counts and drops are the pieces that
  \<open>split(" ")\<close> gives, the empty pieces included. In every pass that returns, the record
  keeps its fields in order, and each field is either left as the text \<open>str(v)\<close> of its
  value, with nothing appended, or it had more than 5 pieces and the last \<open>c\<close> of them
  are dropped, with \<open>c\<close> at least 1 and at most the number of pieces minus 3 (so at least
  3 pieces remain), and \<open>...\<close> is appended.
\<close>

theorem C7_cut_rule:
  assumes "shrink_pass tok overflow_token d cut_last = Inr (kvs, cut_last')"
  shows "length kvs = length d \<and>
    (\<forall>i < length d.
       fst (kvs ! i) = fst (d ! i) \<and>
       (snd (kvs ! i) = py_str (snd (d ! i)) \<or>
        (5 < length (split_space (py_str (snd (d ! i)))) \<and>
         (\<exists>c. 1 \<le> c \<and> c \<le> length (split_space (py_str (snd (d ! i)))) - 3 \<and>
            snd (kvs ! i) =
              join_with '' ''
                (take (length (split_space (py_str (snd (d ! i)))) - c)
                   (split_space (py_str (snd (d ! i))))) @ ''...''))))"
proof -
  from assms obtain cot where
    "cut_fields cot (key2token tok d) (stringify d) cut_last = Inr (kvs, cut_last')"
    by (auto simp: shrink_pass_def split: sum.splits)
  from cut_fields_rule [OF this]
  have l: "list_all2 (\<lambda>(k, v) (k', v'). k' = k \<and>
        (v' = v \<or> (5 < length (split_space v) \<and>
          (\<exists>c. 1 \<le> c \<and> c \<le> length (split_space v) - 3 \<and>
             v' = join_with '' '' (take (length (split_space v) - c) (split_space v)) @ ''...''))))
       (stringify d) kvs" .
  then have len: "length kvs = length d"
    by (auto simp: stringify_def dest: list_all2_lengthD)
  have "\<And>i. i < length d \<Longrightarrow> stringify d ! i = (fst (d ! i), py_str (snd (d ! i)))"
    by (simp add: stringify_def case_prod_beta)
  then show ?thesis
    using l len by (auto simp: list_all2_conv_all_nth case_prod_beta stringify_def)
qed

text \<open>
  The pass at \<open>rec_ab\<close> with an overflow of 5 tokens: the first field loses its last two
  words, the second is kept.
\<close>

theorem C7_cut_rule_witness:
  "shrink_pass char_tokens 5 rec_ab True
     = Inr ([(''a'', ''a b c d e f g h i j...''), (''b'', ''x'')], False) \<and>
   length [(''a'', ''a b c d e f g h i j...''), (''b'', ''x'')] = length rec_ab"
proof -
  have h: "shrink_pass char_tokens 5 rec_ab True
     = Inr ([(''a'', ''a b c d e f g h i j...''), (''b'', ''x'')], False)"
    by code_simp
  show ?thesis by (rule conjI [OF h conjunct1 [OF C7_cut_rule [OF h]]])
qed

text \<open>
  Claim C7 as stated fails, a word being a piece that is not empty. The field
  \<open>a  b  c \<close>, of three words and six pieces, is cut with an overflow of 2 tokens: the
  last piece, which is empty, is dropped and \<open>...\<close> is appended, so a field of no more
  than 5 words is cut and no word is dropped. The field of three spaces followed by eight
  words \<open>x\<close>, of eleven pieces, is cut to its three empty pieces with an overflow of 14
  tokens: none of its words remains.
\<close>

theorem C7_counterexample:
  "shrink_pass char_tokens 2 [(''t'', VStr ''a  b  c '')] True
     = Inr ([(''t'', ''a  b  c...'')], True) \<and>
   nonempty_words ''a  b  c '' = [''a'', ''b'', ''c''] \<and>
   nonempty_words ''a  b  c...'' = [''a'', ''b'', ''c...''] \<and>
   shrink_pass char_tokens 14 [(''t'', VStr ''   x x x x x x x x'')] True
     = Inr ([(''t'', ''  ...'')], True) \<and>
   length (nonempty_words ''   x x x x x x x x'') = 8 \<and>
   nonempty_words ''  ...'' = [''...'']"
  by code_simp

subsection \<open>The per-record loop\<close>

lemma shrink_loop_returns:
  "r < length h \<Longrightarrow> h ! r \<noteq> [] \<Longrightarrow>
     \<exists>res. shrink_loop tok lim r h ov cl n = Some res \<and>
       (\<forall>h' n'. res = Inr (h', n') \<longrightarrow> n' \<le> n + word_count (h ! r))"
proof (induction "word_count (h ! r)" arbitrary: h ov cl n rule: less_induct)
  case less
  show ?case
  proof (cases "0 < ov \<and> cl")
    case False
    then show ?thesis by (subst shrink_loop.simps) auto
  next
    case True
    show ?thesis
    proof (cases "shrink_pass tok ov (h ! r) cl")
      case (Inl e)
      then show ?thesis using True by (subst shrink_loop.simps) auto
    next
      case (Inr p)
      obtain kvs cl' where p: "p = (kvs, cl')" by (cases p)
      let ?h = "h[r := as_dict kvs]"
      let ?ov = "int (tok (json_dict (?h ! r))) - lim"
      have hr: "?h ! r = as_dict kvs" "r < length ?h" using less.prems by auto
      note pw = shrink_pass_words [OF Inr [unfolded p]]
      have ne: "?h ! r \<noteq> []" using pw(1) less.prems hr by (auto simp: as_dict_def)
      have unf: "shrink_loop tok lim r h ov cl n = shrink_loop tok lim r ?h ?ov cl' (Suc n)"
        using True Inr p by (subst shrink_loop.simps) simp
      show ?thesis
      proof (cases cl')
        case True
        then have "word_count (?h ! r) < word_count (h ! r)"
          using pw(3) less.prems hr by simp
        from less.hyps [OF this hr(2) ne, of ?ov cl' "Suc n"] this
        show ?thesis unfolding unf by fastforce
      next
        case False
        have "shrink_loop tok lim r ?h ?ov cl' (Suc n) = Some (Inr (?h, Suc n))"
          using False by (subst shrink_loop.simps) simp
        moreover have "0 < word_count (h ! r)" using less.prems by (simp add: word_count_pos)
        ultimately show ?thesis unfolding unf by auto
      qed
    qed
  qed
qed

text \<open>
  Claim C6, as the code has it. For a record with at least one field, the per-record loop
  returns (with a result, or with the exception a division by zero raises), the number of
  passes it has executed is at most \<open>word_count\<close>, the number of pieces that
  \<open>split(" ")\<close> gives for the fields of the record, and every pass that leaves
  \<open>_cut_last\<close> set, the only passes after which the loop can go on, strictly lowers that
  number.
\<close>

theorem C6_loop_terminates:
  assumes "r < length h" and "h ! r \<noteq> []"
  shows "(\<exists>res. shrink_loop tok token_limit_per_record r h overflow_token True 0 = Some res \<and>
           (\<forall>h' n. res = Inr (h', n) \<longrightarrow> n \<le> word_count (h ! r))) \<and>
         (\<forall>ov d cl kvs. d \<noteq> [] \<and> shrink_pass tok ov d cl = Inr (kvs, True)
           \<longrightarrow> word_count (as_dict kvs) < word_count d)"
  using shrink_loop_returns [OF assms, of tok token_limit_per_record overflow_token True 0]
    shrink_pass_words(3) by auto

text \<open>
  The loop at \<open>rec_ba\<close> with a limit of 37 tokens: three passes, for 13 words.
\<close>

theorem C6_loop_terminates_witness:
  "(0 :: nat) < length [rec_ba] \<and> [rec_ba] ! 0 \<noteq> [] \<and>
   shrink_loop char_tokens 37 0 [rec_ba] 5 True 0
     = Some (Inr ([[(''b'', VStr ''x''), (''a'', VStr ''a b c d e f g h i...'')]], 3)) \<and>
   (3 :: nat) \<le> word_count ([rec_ba] ! 0)"
proof -
  have a: "(0 :: nat) < length [rec_ba]" by simp
  have b: "[rec_ba] ! 0 \<noteq> []" by (simp add: rec_ba_def)
  have e: "shrink_loop char_tokens 37 0 [rec_ba] 5 True 0
     = Some (Inr ([[(''b'', VStr ''x''), (''a'', VStr ''a b c d e f g h i...'')]], 3))"
    by code_simp
  from C6_loop_terminates [OF a b, of char_tokens 37 5] e
  have "(3 :: nat) \<le> word_count ([rec_ba] ! 0)" by auto
  then show ?thesis using a b e by blast
qed

text \<open>
  A record without fields never changes \<open>_cut_last\<close>, so with a positive overflow and a
  limit below the token count of \<open>{}\<close> the loop does not return.
\<close>

lemma shrink_loop_no_field:
  assumes "h ! r = []" and "r < length h" and "0 < ov" and "lim < int (tok (json_dict []))"
  shows "shrink_loop tok lim r h ov True n = None"
proof (rule ccontr)
  assume "shrink_loop tok lim r h ov True n \<noteq> None"
  then obtain y where y: "shrink_loop tok lim r h ov True n = Some y" by auto
  let ?P = "\<lambda>(tok' :: string \<Rightarrow> nat) (lim' :: int) (r' :: nat) (h' :: heap) (ov' :: int) (cl :: bool)
              (n' :: nat) (y :: error + heap \<times> nat).
              \<not> (tok' = tok \<and> lim' = lim \<and> r' = r \<and> h' = h \<and> 0 < ov' \<and> cl)"
  have "?P tok lim r h ov True n y"
  proof (rule shrink_loop.raw_induct [where P = ?P, OF _ y], goal_cases)
    case (1 f tok' lim' r' h' ov' cl n' y')
    show ?case
    proof
      assume a: "tok' = tok \<and> lim' = lim \<and> r' = r \<and> h' = h \<and> 0 < ov' \<and> cl"
      have p: "shrink_pass tok ov' (h ! r) True = Inr ([], True)"
        using assms(1) by (simp add: shrink_pass_def cut_off_token_def key2token_def
            all_token_def stringify_def)
      have hh: "h[r := as_dict []] = h"
        using assms(1,2) by (simp add: as_dict_def list_update_same_conv)
      from 1(2) a p hh assms(1)
      have "f tok lim r h (int (tok (json_dict [])) - lim) True (Suc n') = Some y'"
        by simp
      from 1(1) [OF this] assms(4) show False by simp
    qed
  qed
  then show False using assms(3) by simp
qed

text \<open>
  Claim C6 as stated fails. For the record without fields, with a limit of 1 token and
  one token for each character, the loop does not return: \<open>{}\<close> has 2 tokens. And the
  passes are not bounded by the number of the words, a word being a piece that is not
  empty: for the record \<open>rec_spaces\<close>, whose only field is twelve spaces, with a limit of
  15 tokens the loop executes 4 passes, and the field has no word.
\<close>

theorem C6_counterexample:
  "shrink_loop char_tokens 1 0 [[]] (int (char_tokens (json_dict [])) - 1) True 0 = None \<and>
   shrink_loop char_tokens 15 0 [rec_spaces]
       (int (char_tokens (json_dict rec_spaces)) - 15) True 0
     = Some (Inr ([[(''t'', VStr ''    ...'')]], 4)) \<and>
   nonempty_words (replicate 12 (CHR '' '')) = []"
proof -
  have t: "char_tokens (json_dict []) = 2"
    by code_simp
  have "shrink_loop char_tokens 1 0 [[]] (int (char_tokens (json_dict [])) - 1) True 0 = None"
    by (rule shrink_loop_no_field) (simp_all add: t)
  moreover have "shrink_loop char_tokens 15 0 [rec_spaces]
       (int (char_tokens (json_dict rec_spaces)) - 15) True 0
     = Some (Inr ([[(''t'', VStr ''    ...'')]], 4))"
    by code_simp
  moreover have "nonempty_words (replicate 12 (CHR '' '')) = []"
    by code_simp
  ultimately show ?thesis by blast
qed

text \<open>
  Claim C5. \<open>_cut_last\<close> is overwritten by every field, so the loop goes on only when
  the last field of the record was cut. On \<open>rec_ab\<close> with a limit of 37 tokens the first
  pass cuts the field \<open>a\<close> and keeps the field \<open>b\<close>, and the loop ends after this one
  pass although 4 tokens of overflow remain and one more pass would cut \<open>a\<close> again. On
  \<open>rec_ba\<close>, the same fields in the other order, the loop runs three passes. Lines 59 to
  108 reach the first case with six records \<open>rec_ab\<close> and a budget of 259 tokens, which
  gives the limit of 37 tokens: every record keeps ten words of \<open>a\<close>.
\<close>

theorem C5_last_field_decides:
  "shrink_loop char_tokens 37 0 [rec_ab] (int (char_tokens (json_dict rec_ab)) - 37) True 0
     = Some (Inr ([[(''a'', VStr ''a b c d e f g h i j...''), (''b'', VStr ''x'')]], 1))
   \<and> 0 < int (char_tokens (json_dict [(''a'', VStr ''a b c d e f g h i j...''), (''b'', VStr ''x'')])) - 37
   \<and> shrink_pass char_tokens 4 [(''a'', VStr ''a b c d e f g h i j...''), (''b'', VStr ''x'')] True
     = Inr ([(''a'', ''a b c d e f g h i...''), (''b'', ''x'')], False)
   \<and> shrink_loop char_tokens 37 0 [rec_ba] (int (char_tokens (json_dict rec_ba)) - 37) True 0
     = Some (Inr ([[(''b'', VStr ''x''), (''a'', VStr ''a b c d e f g h i...'')]], 3))
   \<and> truncate_output char_tokens (cut_list char_tokens) wide_look_up []
         (replicate 6 rec_ab) [0..<6] False
     = Some (Inr (''look_up search result: ''
                    @ json_list (replicate 6
                        [(''a'', VStr ''a b c d e f g h i j...''), (''b'', VStr ''x'')]),
                  json_list (replicate 6
                    [(''a'', VStr ''a b c d e f g h i j...''), (''b'', VStr ''x'')])))"
  by code_simp

subsection \<open>The originals are not changed\<close>

lemma shrink_loop_frame:
  assumes "shrink_loop tok lim r h ov cl n = Some (Inr (h', n'))"
  shows "length h' = length h \<and> (\<forall>a. a \<noteq> r \<longrightarrow> h' ! a = h ! a)"
proof -
  let ?P = "\<lambda>(tok :: string \<Rightarrow> nat) (lim :: int) (r :: nat) (h :: heap) (ov :: int) (cl :: bool)
              (n :: nat) (y :: error + heap \<times> nat).
              \<forall>h' n'. y = Inr (h', n') \<longrightarrow> length h' = length h \<and> (\<forall>a. a \<noteq> r \<longrightarrow> h' ! a = h ! a)"
  have "?P tok lim r h ov cl n (Inr (h', n'))"
  proof (rule shrink_loop.raw_induct [where P = ?P, OF _ assms], goal_cases)
    case (1 f tok lim r h ov cl n y)
    show ?case
    proof (cases "0 < ov \<and> cl")
      case False
      then have "Some (Inr (h, n)) = Some y" using 1(2) by (simp only: if_False)
      then show ?thesis by auto
    next
      case True
      show ?thesis
      proof (cases "shrink_pass tok ov (h ! r) cl")
        case (Inl e)
        then have "y = Inl e" using True 1(2) by simp
        then show ?thesis by simp
      next
        case (Inr p)
        then have "f tok lim r (h[r := as_dict (fst p)])
                 (int (tok (json_dict ((h[r := as_dict (fst p)]) ! r))) - lim) (snd p) (Suc n) = Some y"
          using True 1(2) by simp
        from 1(1) [OF this] show ?thesis by auto
      qed
    qed
  qed
  then show ?thesis by simp
qed

lemma shrink_records_frame:
  "shrink_records tok lim h res = Some (Inr (h', cut_res)) \<Longrightarrow>
     length h \<le> length h' \<and> (\<forall>a < length h. h' ! a = h ! a) \<and> (\<forall>r \<in> set cut_res. length h \<le> r)"
proof (induction res arbitrary: h h' cut_res)
  case Nil
  then show ?case by simp
next
  case (Cons a as)
  let ?h1 = "h @ [h ! a]"
  let ?ov = "int (tok (json_dict (h ! a))) - lim"
  from Cons.prems obtain h2 n h3 rs where
    l: "shrink_loop tok lim (length h) ?h1 ?ov True 0 = Some (Inr (h2, n))" and
    r: "shrink_records tok lim h2 as = Some (Inr (h3, rs))" and
    e: "h' = h3" "cut_res = length h # rs"
    by (auto simp: deepcopy_def Let_def split: option.splits sum.splits)
  from shrink_loop_frame [OF l]
  have f2: "length h2 = Suc (length h)" "\<forall>a. a \<noteq> length h \<longrightarrow> h2 ! a = ?h1 ! a" by auto
  from Cons.IH [OF r]
  have f3: "length h2 \<le> length h3" "\<forall>a < length h2. h3 ! a = h2 ! a" "\<forall>r \<in> set rs. length h2 \<le> r"
    by auto
  have "\<forall>a < length h. h3 ! a = h ! a"
  proof (intro allI impI)
    fix b assume b: "b < length h"
    then have "h3 ! b = h2 ! b" using f2(1) f3(2) by simp
    also have "\<dots> = ?h1 ! b" using f2(2) b by simp
    also have "\<dots> = h ! b" using b by (simp add: nth_append)
    finally show "h3 ! b = h ! b" .
  qed
  then show ?case using f2 f3 e by auto
qed

text \<open>
  Claim C10. When the shrink phase returns, every record that entered it holds what it
  held before, and no reference of \<open>cut_res\<close> is a reference to one of them: the loop
  writes to the copies only.
\<close>

theorem C10_originals_unchanged:
  assumes "shrink_records tok token_limit_per_record h res = Some (Inr (h', cut_res))"
    and "\<forall>a \<in> set res. a < length h"
  shows "map (\<lambda>a. h' ! a) res = map (\<lambda>a. h ! a) res \<and> set cut_res \<inter> set res = {}"
  using shrink_records_frame [OF assms(1)] assms(2) by fastforce

text \<open>
  The shrink phase at the two records \<open>rec_ab\<close> and \<open>rec_ba\<close> with a limit of 37 tokens.
\<close>

theorem C10_originals_unchanged_witness:
  "shrink_records char_tokens 37 [rec_ab, rec_ba] [0, 1]
     = Some (Inr ([rec_ab, rec_ba,
                   [(''a'', VStr ''a b c d e f g h i j...''), (''b'', VStr ''x'')],
                   [(''b'', VStr ''x''), (''a'', VStr ''a b c d e f g h i...'')]], [2, 3]))
   \<and> (map (\<lambda>a. [rec_ab, rec_ba,
                   [(''a'', VStr ''a b c d e f g h i j...''), (''b'', VStr ''x'')],
                   [(''b'', VStr ''x''), (''a'', VStr ''a b c d e f g h i...'')]] ! a) [0, 1]
        = map (\<lambda>a. [rec_ab, rec_ba] ! a) [0, 1]
      \<and> set [2, 3 :: nat] \<inter> set [0, 1] = {})"
proof -
  have h: "shrink_records char_tokens 37 [rec_ab, rec_ba] [0, 1]
     = Some (Inr ([rec_ab, rec_ba,
                   [(''a'', VStr ''a b c d e f g h i j...''), (''b'', VStr ''x'')],
                   [(''b'', VStr ''x''), (''a'', VStr ''a b c d e f g h i...'')]], [2, 3]))"
    by code_simp
  have w: "\<forall>a \<in> set [0, 1 :: nat]. a < length [rec_ab, rec_ba]" by simp
  show ?thesis by (rule conjI [OF h C10_originals_unchanged [OF h w]])
qed

subsection \<open>The record-count cap\<close>

text \<open>
  The first way of \<open>random.sample\<close> consumes one draw for each element and returns as
  many elements as asked for.
\<close>

lemma sample_pool_length: "k \<le> length pool \<Longrightarrow> length (sample_pool g i pool k) = k"
proof (induction k arbitrary: i pool)
  case 0
  then show ?case by simp
next
  case (Suc k)
  then have ne: "pool \<noteq> []" by auto
  have "k \<le> length (butlast (pool[g i mod length pool := last pool]))"
    using Suc.prems by simp
  from Suc.IH [OF this] show ?case using ne by simp
qed

lemma sample_pool_cong:
  "(\<And>j. i \<le> j \<Longrightarrow> j < i + k \<Longrightarrow> g1 j = g2 j) \<Longrightarrow> sample_pool g1 i pool k = sample_pool g2 i pool k"
proof (induction k arbitrary: i pool)
  case 0
  then show ?case by simp
next
  case (Suc k)
  have h: "g1 i = g2 i" using Suc.prems [of i] by simp
  have "sample_pool g1 (Suc i) (butlast (pool[g2 i mod length pool := last pool])) k
      = sample_pool g2 (Suc i) (butlast (pool[g2 i mod length pool := last pool])) k"
  proof (rule Suc.IH)
    fix j assume "Suc i \<le> j" "j < Suc i + k"
    then show "g1 j = g2 j" using Suc.prems [of j] by simp
  qed
  then show ?case using h by simp
qed

text \<open>
  The inner loop of the second way returns at the first draw that is not a selected
  position, and only then.
\<close>

lemma draw_unselected_result:
  assumes "draw_unselected g i n selected = Some (j, i')"
  shows "i < i' \<and> j = g (i' - 1) mod n \<and> j \<notin> set selected \<and>
         (\<forall>x. i \<le> x \<and> x < i' - 1 \<longrightarrow> g x mod n \<in> set selected)"
proof -
  let ?P = "\<lambda>(g :: rng) (i :: nat) (n :: nat) (selected :: nat list) (y :: nat \<times> nat).
              i < snd y \<and> fst y = g (snd y - 1) mod n \<and> fst y \<notin> set selected \<and>
              (\<forall>x. i \<le> x \<and> x < snd y - 1 \<longrightarrow> g x mod n \<in> set selected)"
  have "?P g i n selected (j, i')"
  proof (rule draw_unselected.raw_induct [where P = ?P, OF _ assms], goal_cases)
    case (1 f g i n selected y)
    show ?case
    proof (cases "g i mod n \<in> set selected")
      case True
      then have "f g (Suc i) n selected = Some y" using 1(2) by simp
      from 1(1) [OF this]
      have ih: "Suc i < snd y" "fst y = g (snd y - 1) mod n" "fst y \<notin> set selected"
        "\<forall>x. Suc i \<le> x \<and> x < snd y - 1 \<longrightarrow> g x mod n \<in> set selected" by auto
      have "\<forall>x. i \<le> x \<and> x < snd y - 1 \<longrightarrow> g x mod n \<in> set selected"
      proof (intro allI impI)
        fix x assume x: "i \<le> x \<and> x < snd y - 1"
        show "g x mod n \<in> set selected"
        proof (cases "x = i")
          case True
          then show ?thesis using \<open>g i mod n \<in> set selected\<close> by simp
        next
          case False
          then have "Suc i \<le> x" using x by simp
          then show ?thesis using ih(4) x by simp
        qed
      qed
      then show ?thesis using ih by simp
    next
      case False
      then have "y = (g i mod n, Suc i)" using 1(2) by simp
      then show ?thesis using False by auto
    qed
  qed
  then show ?thesis by auto
qed

lemma draw_unselected_first:
  "i < i' \<Longrightarrow> g (i' - 1) mod n \<notin> set selected \<Longrightarrow>
   (\<forall>x. i \<le> x \<and> x < i' - 1 \<longrightarrow> g x mod n \<in> set selected) \<Longrightarrow>
     draw_unselected g i n selected = Some (g (i' - 1) mod n, i')"
proof (induction "i' - i" arbitrary: i)
  case 0
  then show ?case by simp
next
  case (Suc d)
  show ?case
  proof (cases "i' = Suc i")
    case True
    then show ?thesis using Suc.prems(2) by (subst draw_unselected.simps) simp
  next
    case False
    then have lt: "Suc i < i'" using Suc.prems(1) by simp
    then have m: "g i mod n \<in> set selected" using Suc.prems(3) by simp
    have d: "d = i' - Suc i" using Suc.hyps(2) by simp
    have r: "\<forall>x. Suc i \<le> x \<and> x < i' - 1 \<longrightarrow> g x mod n \<in> set selected"
      using Suc.prems(3) by simp
    have "draw_unselected g (Suc i) n selected = Some (g (i' - 1) mod n, i')"
      by (rule Suc.hyps(1) [OF d lt Suc.prems(2) r])
    then show ?thesis using m by (subst draw_unselected.simps) simp
  qed
qed

lemma draw_unselected_cong:
  assumes "draw_unselected g1 i n selected = Some (j, i')"
    and "\<forall>x. i \<le> x \<and> x < i' \<longrightarrow> g1 x = g2 x"
  shows "draw_unselected g2 i n selected = Some (j, i')"
proof -
  from draw_unselected_result [OF assms(1)]
  have r: "i < i'" "j = g1 (i' - 1) mod n" "j \<notin> set selected"
    "\<forall>x. i \<le> x \<and> x < i' - 1 \<longrightarrow> g1 x mod n \<in> set selected" by auto
  have e: "g1 (i' - 1) = g2 (i' - 1)" using assms(2) r(1) by simp
  have "\<forall>x. i \<le> x \<and> x < i' - 1 \<longrightarrow> g2 x mod n \<in> set selected"
  proof (intro allI impI)
    fix x assume x: "i \<le> x \<and> x < i' - 1"
    then have "i \<le> x \<and> x < i'" by auto
    then have "g1 x = g2 x" using assms(2) by blast
    then show "g2 x mod n \<in> set selected" using r(4) x by auto
  qed
  from draw_unselected_first [OF r(1) _ this] r(2,3) e show ?thesis by simp
qed

lemma sample_set_length:
  "sample_set g i population selected k = Some (xs, m) \<Longrightarrow> length xs = k \<and> i \<le> m"
proof (induction k arbitrary: i selected xs m)
  case 0
  then show ?case by simp
next
  case (Suc k)
  from Suc.prems obtain j i' rest where
    d: "draw_unselected g i (length population) selected = Some (j, i')" and
    s: "sample_set g i' population (j # selected) k = Some (rest, m)" and
    x: "xs = population ! j # rest"
    by (auto split: option.splits prod.splits)
  from draw_unselected_result [OF d] have "i < i'" by simp
  then show ?case using Suc.IH [OF s] x by simp
qed

lemma sample_set_cong:
  "sample_set g1 i population selected k = Some (xs, m) \<Longrightarrow>
   \<forall>x. i \<le> x \<and> x < m \<longrightarrow> g1 x = g2 x \<Longrightarrow>
     sample_set g2 i population selected k = Some (xs, m)"
proof (induction k arbitrary: i selected xs m)
  case 0
  then show ?case by simp
next
  case (Suc k)
  from Suc.prems(1) obtain j i' rest where
    d: "draw_unselected g1 i (length population) selected = Some (j, i')" and
    s: "sample_set g1 i' population (j # selected) k = Some (rest, m)" and
    x: "xs = population ! j # rest"
    by (auto split: option.splits prod.splits)
  from draw_unselected_result [OF d] have lt: "i < i'" by simp
  from sample_set_length [OF s] have le: "i' \<le> m" by simp
  have "\<forall>x. i \<le> x \<and> x < i' \<longrightarrow> g1 x = g2 x" using Suc.prems(2) le by simp
  from draw_unselected_cong [OF d this]
  have d2: "draw_unselected g2 i (length population) selected = Some (j, i')" .
  have "\<forall>x. i' \<le> x \<and> x < m \<longrightarrow> g1 x = g2 x" using Suc.prems(2) lt by simp
  from Suc.IH [OF s this]
  have "sample_set g2 i' population (j # selected) k = Some (rest, m)" .
  then show ?case using d2 x by simp
qed

lemma random_sample_cong:
  assumes "random_sample g1 population k = Some (Inr (xs, used))"
    and "\<forall>i < used. g1 i = g2 i"
  shows "random_sample g2 population k = Some (Inr (xs, used))"
proof -
  have v: "\<not> (k < 0 \<or> int (length population) < k)"
    using assms(1) by (auto simp: random_sample_def split: if_splits)
  show ?thesis
  proof (cases "length population \<le> setsize (nat k)")
    case True
    then have e: "xs = sample_pool g1 0 population (nat k)" "used = nat k"
      using assms(1) v by (auto simp: random_sample_def)
    have "sample_pool g1 0 population (nat k) = sample_pool g2 0 population (nat k)"
      using assms(2) e(2) by (intro sample_pool_cong) simp
    then show ?thesis using True v e by (simp add: random_sample_def)
  next
    case False
    then have "sample_set g1 0 population [] (nat k) = Some (xs, used)"
      using assms(1) v by (auto simp: random_sample_def)
    from sample_set_cong [OF this, of g2] assms(2)
    have "sample_set g2 0 population [] (nat k) = Some (xs, used)" by simp
    then show ?thesis using False v by (simp add: random_sample_def)
  qed
qed

text \<open>
  The cap when it returns, for a maximum that is not negative: above the maximum the
  flag is set and the sample has as many records as the maximum, otherwise the list is
  returned as it is and the flag is not set. For a negative maximum \<open>random.sample\<close>
  raises. How the sample is distributed is a property of the generator and not of one
  sequence of draws; nothing is stated about it.
\<close>

lemma cap_records_count:
  assumes "cap_records g k res = Some (Inr (res', any_cut))" and "0 \<le> k"
  shows "int (length res') \<le> k \<and>
         (if k < int (length res) then any_cut \<and> int (length res') = k
          else \<not> any_cut \<and> res' = res)"
proof (cases "k < int (length res)")
  case False
  then show ?thesis using assms(1) by (simp add: cap_records_def)
next
  case True
  then obtain used where r: "random_sample g res k = Some (Inr (res', used))" and c: any_cut
    using assms(1) by (auto simp: cap_records_def split: option.splits sum.splits)
  have kn: "nat k \<le> length res" using True assms(2) by linarith
  have "length res' = nat k"
  proof (cases "length res \<le> setsize (nat k)")
    case True
    then show ?thesis using r kn sample_pool_length [OF kn, of g 0]
      by (auto simp: random_sample_def split: if_splits)
  next
    case False
    then have "sample_set g 0 res [] (nat k) = Some (res', used)"
      using r by (auto simp: random_sample_def split: if_splits)
    from sample_set_length [OF this] show ?thesis by simp
  qed
  then show ?thesis using True c assms(2) by simp
qed

lemma cap_records_negative: "k < 0 \<Longrightarrow> cap_records g k res = Some (Inl ValueError)"
  by (simp add: cap_records_def random_sample_def)

text \<open>
  Claim C9, as the code has it. The constructor takes no random source: the sample is
  drawn from the generator of the \<open>random\<close> module. Two runs on the same records and
  budget select the same sample whenever, in the second run, that generator gives the
  same draws as in the first, up to the last draw that \<open>random.sample\<close> consumes in the
  first run.
\<close>

theorem C9_same_draws_same_sample:
  assumes "random_sample g1 res (max_record_num (QueryTool_init nm ds c buf B))
             = Some (Inr (sampled, used))"
    and "\<forall>i < used. g1 i = g2 i"
  shows "cap_records g2 (max_record_num (QueryTool_init nm ds c buf B)) res
           = cap_records g1 (max_record_num (QueryTool_init nm ds c buf B)) res"
proof -
  from random_sample_cong [OF assms]
  have "random_sample g2 res (max_record_num (QueryTool_init nm ds c buf B))
          = Some (Inr (sampled, used))" .
  then show ?thesis using assms(1) by (simp add: cap_records_def)
qed

text \<open>
  Thirty records and a budget of 10, so two records are sampled, in the second way: the
  draws 27, 27, 1 select the records 27 and 1, and three draws are consumed. The two
  states of the generator agree on these three draws.
\<close>

theorem C9_same_draws_same_sample_witness:
  "random_sample repeat_draws [0..<30]
     (max_record_num (QueryTool_init ''look_up'' ''searches the items'' items_corpus [] 10))
     = Some (Inr ([27, 1], 3)) \<and>
   cap_records repeat_draws_then
     (max_record_num (QueryTool_init ''look_up'' ''searches the items'' items_corpus [] 10))
     [0..<30]
   = cap_records repeat_draws
     (max_record_num (QueryTool_init ''look_up'' ''searches the items'' items_corpus [] 10))
     [0..<30]"
proof -
  have h: "random_sample repeat_draws [0..<30]
     (max_record_num (QueryTool_init ''look_up'' ''searches the items'' items_corpus [] 10))
     = Some (Inr ([27, 1], 3))"
    by code_simp
  have a: "\<forall>i < 3. repeat_draws i = repeat_draws_then i"
    by (simp add: repeat_draws_def repeat_draws_then_def)
  show ?thesis by (rule conjI [OF h C9_same_draws_same_sample [OF h a]])
qed

lemma sub_scenario:
  "sub_from_where ''FROM items WHERE'' False 0 scenario_query = normalized_query"
  by code_simp

lemma replace_colr:
  "replace_all [(''colr'', ''color'')] normalized_query
     = ''SELECT * FROM items WHERE color LIKE '' @ [CHR 0x27] @ ''%cofee%'' @ [CHR 0x27]"
  by code_simp

lemma findall_scenario:
  "findall_like 0 (''SELECT * FROM items WHERE color LIKE '' @ [CHR 0x27] @ ''%cofee%'' @ [CHR 0x27])
     = [(''color'', ''cofee'')]"
  by code_simp

lemma replace_cofee:
  "replace_all [(''%cofee%'', ''%'' @ py_replace ''coffee'' [CHR 0x27] [CHR 0x27, CHR 0x27] @ ''%'')]
     (''SELECT * FROM items WHERE color LIKE '' @ [CHR 0x27] @ ''%cofee%'' @ [CHR 0x27])
     = grounded_query"
  by code_simp

lemma rewrite_sql_scenario:
  assumes "corpus_name c = ''items''"
    and "''color'' \<in> set (column_meaning c)"
    and "''colr'' \<notin> set (column_meaning c)"
    and "''color'' \<in> set (fuzzy_engine c)"
    and "fuzzy_match c ''colr'' ''sql_cols'' = Inr ''color''"
    and "fuzzy_match c ''cofee'' ''color'' = Inr ''coffee''"
    and "extract_columns_from_where normalized_query = Inr [''colr'']"
  shows "rewrite_sql extract_columns_from_where c scenario_query = Inr grounded_query"
proof -
  let ?q2 = "''SELECT * FROM items WHERE color LIKE '' @ [CHR 0x27] @ ''%cofee%'' @ [CHR 0x27]"
  have s: "sub_from_where (''FROM '' @ corpus_name c @ '' WHERE'') False 0 scenario_query
             = normalized_query"
    using assms(1) sub_scenario by simp
  have g: "ground_cols c [''colr''] [] = Inr [(''colr'', ''color'')]"
    using assms(3,5) by simp
  have v: "ground_values c [(''color'', ''cofee'')] []
             = Inr [(''%cofee%'', ''%'' @ py_replace ''coffee'' [CHR 0x27] [CHR 0x27, CHR 0x27] @ ''%'')]"
    using assms(4,6) by simp
  show ?thesis
    unfolding rewrite_sql_def s assms(7) sum.case g replace_colr findall_scenario v replace_cofee
    by (rule refl)
qed

lemma scenario_rewrite_items:
  "rewrite_sql where_columns items_corpus scenario_query = Inr grounded_query"
  by (rule rewrite_sql_scenario) (simp_all add: items_corpus_def where_columns_def)

lemma scenario_rewrite_failing:
  "rewrite_sql where_columns failing_corpus scenario_query = Inr grounded_query"
  by (rule rewrite_sql_scenario) (simp_all add: failing_corpus_def items_corpus_def where_columns_def)

lemma scenario_rewrite_blank:
  "rewrite_sql where_columns blank_corpus scenario_query = Inr grounded_query"
  by (rule rewrite_sql_scenario) (simp_all add: blank_corpus_def items_corpus_def where_columns_def)

lemma run_small_zero:
  "map_option returned
     (run piece_tokens (cut_list piece_tokens) where_columns zero_draws small_look_up scenario_query)
     = Some (json_list [[(''color'', VStr ''coffee'')]])"
  by code_simp

lemma run_small_one:
  "map_option returned
     (run piece_tokens (cut_list piece_tokens) where_columns one_draws small_look_up scenario_query)
     = Some (json_list [[(''color'', VStr ''cream'')]])"
  by code_simp

text \<open>
  Claim C9 as stated fails: the same tool, built by the same call of the constructor,
  run on the same query and so on the same records, returns the first record under one
  state of the generator of the \<open>random\<close> module and the second record under another.
\<close>

theorem C9_counterexample:
  "map_option returned
     (run piece_tokens (cut_list piece_tokens) where_columns zero_draws small_look_up scenario_query)
     = Some (json_list [[(''color'', VStr ''coffee'')]]) \<and>
   map_option returned
     (run piece_tokens (cut_list piece_tokens) where_columns one_draws small_look_up scenario_query)
     = Some (json_list [[(''color'', VStr ''cream'')]]) \<and>
   json_list [[(''color'', VStr ''coffee'')]] \<noteq> json_list [[(''color'', VStr ''cream'')]] \<and>
   cap_records zero_draws (max_record_num small_look_up) [0, 1 :: nat] = Some (Inr ([0], True)) \<and>
   cap_records one_draws (max_record_num small_look_up) [0, 1 :: nat] = Some (Inr ([1], True))"
proof -
  have "json_list [[(''color'', VStr ''coffee'')]] \<noteq> json_list [[(''color'', VStr ''cream'')]]"
    by code_simp
  moreover have "cap_records zero_draws (max_record_num small_look_up) [0, 1 :: nat]
      = Some (Inr ([0], True))"
    by code_simp
  moreover have "cap_records one_draws (max_record_num small_look_up) [0, 1 :: nat]
      = Some (Inr ([1], True))"
    by code_simp
  ultimately show ?thesis using run_small_zero run_small_one by blast
qed

subsection \<open>The token ceiling\<close>



lemma cut_to_prefix: "\<exists>m \<le> n. cut_to tok records budget n = take m records"
proof (induction n)
  case 0
  then show ?case by simp
next
  case (Suc n)
  then obtain m where m: "m \<le> n" "cut_to tok records budget n = take m records" by auto
  show ?case
  proof (cases "int (tok (json_list (take (Suc n) records))) \<le> budget")
    case True
    then show ?thesis by auto
  next
    case False
    then have "cut_to tok records budget (Suc n) = take m records" using m(2) by simp
    moreover have "m \<le> Suc n" using m(1) by simp
    ultimately show ?thesis by blast
  qed
qed



subsection \<open>The scenario of \<open>rewrite_sql\<close>\<close>

text \<open>
  Claim C8. For a corpus named \<open>items\<close> whose columns contain \<open>color\<close> and not \<open>colr\<close>,
  where \<open>color\<close> has a fuzzy engine (a categorical domain), \<open>fuzzy_match\<close> maps \<open>colr\<close> to
  \<open>color\<close> over the columns and \<open>cofee\<close> to \<open>coffee\<close> over \<open>color\<close>, and the column
  extractor finds the column \<open>colr\<close> in the \<open>WHERE\<close> clause, \<open>rewrite_sql\<close> turns
  \<open>SELECT * FROM unknown_table WHERE colr LIKE '%cofee%'\<close> into
  \<open>SELECT * FROM items WHERE color LIKE '%coffee%'\<close>.
\<close>

theorem C8_scenario:
  assumes "corpus_name c = ''items''"
    and "''color'' \<in> set (column_meaning c)"
    and "''colr'' \<notin> set (column_meaning c)"
    and "''color'' \<in> set (fuzzy_engine c)"
    and "fuzzy_match c ''colr'' ''sql_cols'' = Inr ''color''"
    and "fuzzy_match c ''cofee'' ''color'' = Inr ''coffee''"
    and "extract_columns_from_where normalized_query = Inr [''colr'']"
  shows "rewrite_sql extract_columns_from_where c scenario_query = Inr grounded_query"
  using assms by (rule rewrite_sql_scenario)

text \<open>
  The scenario at the corpus \<open>items_corpus\<close>.
\<close>

theorem C8_scenario_witness:
  "corpus_name items_corpus = ''items'' \<and>
   ''color'' \<in> set (column_meaning items_corpus) \<and>
   ''colr'' \<notin> set (column_meaning items_corpus) \<and>
   ''color'' \<in> set (fuzzy_engine items_corpus) \<and>
   fuzzy_match items_corpus ''colr'' ''sql_cols'' = Inr ''color'' \<and>
   fuzzy_match items_corpus ''cofee'' ''color'' = Inr ''coffee'' \<and>
   where_columns normalized_query = Inr [''colr''] \<and>
   rewrite_sql where_columns items_corpus scenario_query = Inr grounded_query"
proof -
  have h1: "corpus_name items_corpus = ''items''" by (simp add: items_corpus_def)
  have h2: "''color'' \<in> set (column_meaning items_corpus)" by (simp add: items_corpus_def)
  have h3: "''colr'' \<notin> set (column_meaning items_corpus)" by (simp add: items_corpus_def)
  have h4: "''color'' \<in> set (fuzzy_engine items_corpus)" by (simp add: items_corpus_def)
  have h5: "fuzzy_match items_corpus ''colr'' ''sql_cols'' = Inr ''color''"
    by (simp add: items_corpus_def)
  have h6: "fuzzy_match items_corpus ''cofee'' ''color'' = Inr ''coffee''"
    by (simp add: items_corpus_def)
  have h7: "where_columns normalized_query = Inr [''colr'']" by (simp add: where_columns_def)
  show ?thesis
    by (intro conjI h1 h2 h3 h4 h5 h6 h7 C8_scenario [where c = items_corpus and extract_columns_from_where = where_columns,
          OF h1 h2 h3 h4 h5 h6 h7])
qed

subsection \<open>What \<open>run\<close> returns\<close>

lemma default_output_differs: "default_output \<noteq> broken_message nm"
proof
  assume "default_output = broken_message nm"
  then have "last default_output = last (broken_message nm)" by simp
  then show False by (simp add: default_output_def broken_message_def)
qed

text \<open>
  Claim C1, as the code has it. When the rewrite succeeds and an exception is raised in
  the second \<open>try\<close> (execution, the cap, truncation, serialization), \<open>run\<close> returns the
  fixed text \<open>can not seach related information.\<close>, which is not the message returned
  when the rewrite fails; that message goes to the text of \<open>info\<close>, which is logged.
  Nothing of the result is returned.
\<close>

theorem C1_failure_returns_default:
  assumes "rewrite_sql extract_columns_from_where (item_corpus self) inputs = Inr rewritten"
    and "search tok cut_list' g self rewritten
           (rewrite_notice (name self) rewritten (categorical_keys (item_corpus self)))
         = Some (Inl e)"
  shows "\<exists>out. run tok cut_list' extract_columns_from_where g self inputs = Some out \<and>
           returned out = ''can not seach related information.'' \<and>
           returned out \<noteq> broken_message (name self) \<and>
           final_info out =
             rewrite_notice (name self) rewritten (categorical_keys (item_corpus self))
               @ broken_message (name self)"
  using assms default_output_differs [of "name self"]
  by (simp add: run_def default_output_def)

lemma search_failing:
  "search char_tokens (cut_list char_tokens) zero_draws failing_look_up grounded_query info
     = Some (Inl CollaboratorError)"
  by (simp add: search_def failing_look_up_def QueryTool_init_def failing_corpus_def)

text \<open>
  A corpus whose query raises.
\<close>

theorem C1_failure_returns_default_witness:
  "rewrite_sql where_columns (item_corpus failing_look_up) scenario_query = Inr grounded_query \<and>
   search char_tokens (cut_list char_tokens) zero_draws failing_look_up grounded_query
     (rewrite_notice (name failing_look_up) grounded_query
        (categorical_keys (item_corpus failing_look_up))) = Some (Inl CollaboratorError) \<and>
   (\<exists>out. run char_tokens (cut_list char_tokens) where_columns zero_draws failing_look_up
              scenario_query = Some out \<and>
           returned out = ''can not seach related information.'' \<and>
           returned out \<noteq> broken_message (name failing_look_up) \<and>
           final_info out =
             rewrite_notice (name failing_look_up) grounded_query
               (categorical_keys (item_corpus failing_look_up))
               @ broken_message (name failing_look_up))"
proof -
  have rw: "rewrite_sql where_columns (item_corpus failing_look_up) scenario_query
              = Inr grounded_query"
    using scenario_rewrite_failing by (simp add: failing_look_up_def QueryTool_init_def)
  note se = search_failing [of "rewrite_notice (name failing_look_up) grounded_query
        (categorical_keys (item_corpus failing_look_up))"]
  show ?thesis
    by (rule conjI [OF rw conjI [OF se C1_failure_returns_default [OF rw se]]])
qed

text \<open>
  Claim C1 as stated fails: with a corpus whose query raises, \<open>run\<close> returns
  \<open>can not seach related information.\<close>, and with a column extractor that raises
  (the rewrite fails) it returns the message that the tool is broken.
\<close>

theorem C1_counterexample:
  "map_option returned
     (run char_tokens (cut_list char_tokens) where_columns zero_draws failing_look_up scenario_query)
     = Some ''can not seach related information.'' \<and>
   map_option returned
     (run char_tokens (cut_list char_tokens) no_columns zero_draws failing_look_up scenario_query)
     = Some (''look_up: some thing went wrong in execution, the tool is broken for current input. ''
               @ [CHR 0x0A])"
proof -
  have rw: "rewrite_sql where_columns (item_corpus failing_look_up) scenario_query
              = Inr grounded_query"
    using scenario_rewrite_failing by (simp add: failing_look_up_def QueryTool_init_def)
  have rf: "rewrite_sql no_columns (item_corpus failing_look_up) scenario_query
              = Inl CollaboratorError"
    by (simp add: rewrite_sql_def no_columns_def)
  have nm: "name failing_look_up = ''look_up''"
    by (simp add: failing_look_up_def QueryTool_init_def)
  show ?thesis
    by (simp add: run_def rw rf search_failing default_output_def broken_message_def nm)
qed

lemma search_look_up:
  "search char_tokens (cut_list char_tokens) zero_draws look_up grounded_query info
     = Some (Inr (info @ ''look_up'' @ '' search result: ''
                    @ json_list [[(''color'', VStr ''coffee'')], [(''color'', VStr ''cream'')]],
                  json_list [[(''color'', VStr ''coffee'')], [(''color'', VStr ''cream'')]]))"
proof -
  let ?R = "[[(''color'', VStr ''coffee'')], [(''color'', VStr ''cream'')]]"
  have e: "execute (item_corpus look_up) grounded_query = Inr ?R"
    by (simp add: look_up_def QueryTool_init_def items_corpus_def)
  have c: "cap_records zero_draws (max_record_num look_up) [0..<length ?R]
             = Some (Inr ([0, 1], False))"
    by code_simp
  have t: "\<not> result_max_token look_up < int (char_tokens (json_list ?R))"
    by code_simp
  have j: "json_dumps ?R [0, 1] = json_list ?R"
    by (simp add: json_dumps_def)
  have nm: "name look_up = ''look_up''"
    by (simp add: look_up_def QueryTool_init_def)
  have tr: "truncate_output char_tokens (cut_list char_tokens) look_up info ?R [0, 1] False
      = Some (Inr (info @ ''look_up'' @ '' search result: '' @ json_list ?R, json_list ?R))"
    by (simp only: truncate_output_def t if_False j nm)
  show ?thesis
    by (simp only: search_def e sum.case c option.case prod.case tr)
qed

lemma search_blank_look_up:
  "search char_tokens (cut_list char_tokens) zero_draws blank_look_up grounded_query info
     = Some (Inl ZeroDivisionError)"
proof -
  have e: "execute (item_corpus blank_look_up) grounded_query = Inr [rec_blank]"
    by (simp add: blank_look_up_def QueryTool_init_def blank_corpus_def)
  have c: "cap_records zero_draws (max_record_num blank_look_up) [0..<length [rec_blank]]
             = Some (Inr ([0], False))"
    by code_simp
  have o: "result_max_token blank_look_up < int (char_tokens (json_dumps [rec_blank] [0]))"
    by code_simp
  have s: "shrink_records char_tokens
             (result_max_token blank_look_up div (int (length [0 :: nat]) + 1)) [rec_blank] [0]
           = Some (Inl ZeroDivisionError)"
    by code_simp
  have tr: "truncate_output char_tokens (cut_list char_tokens) blank_look_up info [rec_blank] [0] False
      = Some (Inl ZeroDivisionError)"
    by (simp only: truncate_output_def o if_True s option.case sum.case)
  show ?thesis
    by (simp only: search_def e sum.case c option.case prod.case tr)
qed

text \<open>
  Claim C2, as the code has it. When the rewrite succeeds and lines 46 to 110 raise no
  exception, \<open>run\<close> returns the serialized final record list alone: the serialization of
  the records after the cap when it is within the budget, and else that of their shrunk
  copies, or of what \<open>cut_list\<close> gives for them when they are still over the budget. The
  notices and the label come before it in the text of \<open>info\<close>, which is logged and not
  returned.
\<close>

theorem C2_returns_payload_only:
  assumes "rewrite_sql extract_columns_from_where (item_corpus self) inputs = Inr rewritten"
    and "search tok cut_list' g self rewritten
           (rewrite_notice (name self) rewritten (categorical_keys (item_corpus self)))
         = Some (Inr (info, output))"
  shows "run tok cut_list' extract_columns_from_where g self inputs
           = Some \<lparr>returned = output, final_info = info,
                   tracked = buffer self @ [(name self, rewritten, ''Some item information.'')]\<rparr>
         \<and> (\<exists>records res any_cut.
              execute (item_corpus self) rewritten = Inr records \<and>
              cap_records g (max_record_num self) [0..<length records]
                = Some (Inr (res, any_cut)) \<and>
              (if int (tok (json_dumps records res)) \<le> result_max_token self
               then output = json_dumps records res
               else \<exists>h' cut_res.
                      shrink_records tok (result_max_token self div (int (length res) + 1))
                        records res = Some (Inr (h', cut_res)) \<and>
                      output =
                        (if int (tok (json_dumps h' cut_res)) \<le> result_max_token self
                         then json_dumps h' cut_res
                         else json_list (cut_list' (map (\<lambda>a. h' ! a) cut_res)
                                           (result_max_token self)))))
         \<and> (\<exists>notices. info = notices @ name self @ '' search result: '' @ output)"
proof -
  let ?notice = "rewrite_notice (name self) rewritten (categorical_keys (item_corpus self))"
  have r: "run tok cut_list' extract_columns_from_where g self inputs
           = Some \<lparr>returned = output, final_info = info,
                   tracked = buffer self @ [(name self, rewritten, ''Some item information.'')]\<rparr>"
    using assms by (simp add: run_def)
  from assms(2) obtain records res any_cut where
    e: "execute (item_corpus self) rewritten = Inr records" and
    c: "cap_records g (max_record_num self) [0..<length records] = Some (Inr (res, any_cut))" and
    t: "truncate_output tok cut_list' self ?notice records res any_cut = Some (Inr (info, output))"
    by (auto simp: search_def split: sum.splits option.splits prod.splits)
  have o: "(if int (tok (json_dumps records res)) \<le> result_max_token self
               then output = json_dumps records res
               else \<exists>h' cut_res.
                      shrink_records tok (result_max_token self div (int (length res) + 1))
                        records res = Some (Inr (h', cut_res)) \<and>
                      output =
                        (if int (tok (json_dumps h' cut_res)) \<le> result_max_token self
                         then json_dumps h' cut_res
                         else json_list (cut_list' (map (\<lambda>a. h' ! a) cut_res)
                                           (result_max_token self))))
         \<and> (\<exists>notices. info = notices @ name self @ '' search result: '' @ output)"
  proof (cases "result_max_token self < int (tok (json_dumps records res))")
    case False
    then have "output = json_dumps records res"
      "info = ?notice @ name self @ '' search result: '' @ output"
      using t by (auto simp: truncate_output_def)
    then show ?thesis using False by auto
  next
    case True
    then obtain h' cut_res where
      s: "shrink_records tok (result_max_token self div (int (length res) + 1)) records res
         = Some (Inr (h', cut_res))"
      using t by (auto simp: truncate_output_def split: option.splits sum.splits)
    have "output = (if int (tok (json_dumps h' cut_res)) \<le> result_max_token self
                         then json_dumps h' cut_res
                         else json_list (cut_list' (map (\<lambda>a. h' ! a) cut_res)
                                           (result_max_token self)))"
      "info = (if any_cut then ?notice @ omitted_notice (name self) else ?notice)
                @ name self @ '' search result: '' @ output"
      using t True s by (auto simp: truncate_output_def Let_def)
    then show ?thesis using True s by auto
  qed
  show ?thesis using r e c o by blast
qed

text \<open>
  The scenario with a budget of 512: two records, nothing sampled, nothing shrunk.
\<close>

theorem C2_returns_payload_only_witness:
  "rewrite_sql where_columns (item_corpus look_up) scenario_query = Inr grounded_query \<and>
   search char_tokens (cut_list char_tokens) zero_draws look_up grounded_query
     (rewrite_notice (name look_up) grounded_query (categorical_keys (item_corpus look_up)))
     = Some (Inr (rewrite_notice (name look_up) grounded_query
                    (categorical_keys (item_corpus look_up))
                    @ ''look_up'' @ '' search result: ''
                    @ json_list [[(''color'', VStr ''coffee'')], [(''color'', VStr ''cream'')]],
                  json_list [[(''color'', VStr ''coffee'')], [(''color'', VStr ''cream'')]])) \<and>
   run char_tokens (cut_list char_tokens) where_columns zero_draws look_up scenario_query
     = Some \<lparr>returned = json_list [[(''color'', VStr ''coffee'')], [(''color'', VStr ''cream'')]],
             final_info =
               rewrite_notice (name look_up) grounded_query (categorical_keys (item_corpus look_up))
                 @ ''look_up'' @ '' search result: ''
                 @ json_list [[(''color'', VStr ''coffee'')], [(''color'', VStr ''cream'')]],
             tracked = buffer look_up @ [(name look_up, grounded_query, ''Some item information.'')]\<rparr>"
proof -
  have rw: "rewrite_sql where_columns (item_corpus look_up) scenario_query = Inr grounded_query"
    using scenario_rewrite_items by (simp add: look_up_def QueryTool_init_def)
  note se = search_look_up [of "rewrite_notice (name look_up) grounded_query
        (categorical_keys (item_corpus look_up))"]
  show ?thesis
    by (intro conjI rw se conjunct1 [OF C2_returns_payload_only [OF rw se]])
qed

lemma run_look_up:
  "run char_tokens (cut_list char_tokens) where_columns zero_draws look_up scenario_query
     = Some \<lparr>returned = json_list [[(''color'', VStr ''coffee'')], [(''color'', VStr ''cream'')]],
             final_info =
               rewrite_notice ''look_up'' grounded_query (categorical_keys items_corpus)
                 @ ''look_up'' @ '' search result: ''
                 @ json_list [[(''color'', VStr ''coffee'')], [(''color'', VStr ''cream'')]],
             tracked = [(''look_up'', grounded_query, ''Some item information.'')]\<rparr>"
proof -
  have f: "name look_up = ''look_up''" "item_corpus look_up = items_corpus" "buffer look_up = []"
    by (simp_all add: look_up_def QueryTool_init_def)
  show ?thesis
    by (simp only: run_def f scenario_rewrite_items sum.case search_look_up option.case
        prod.case append_Nil)
qed

lemma run_blank_look_up:
  "map_option returned
     (run char_tokens (cut_list char_tokens) where_columns zero_draws blank_look_up scenario_query)
     = Some ''can not seach related information.''"
proof -
  have f: "item_corpus blank_look_up = blank_corpus"
    by (simp add: blank_look_up_def QueryTool_init_def)
  show ?thesis
    by (simp add: run_def f scenario_rewrite_blank search_blank_look_up default_output_def)
qed

lemma json_two_records:
  "json_list [[(''color'', VStr ''coffee'')], [(''color'', VStr ''cream'')]]
     = ''[{'' @ [CHR 0x22] @ ''color'' @ [CHR 0x22] @ '': '' @ [CHR 0x22] @ ''coffee'' @ [CHR 0x22]
         @ ''}, {'' @ [CHR 0x22] @ ''color'' @ [CHR 0x22] @ '': '' @ [CHR 0x22] @ ''cream''
         @ [CHR 0x22] @ ''}]''"
  by code_simp

text \<open>
  Claim C2 as stated fails. In the scenario, where the query is grounded, \<open>run\<close> returns
  the two serialized records and no notice; the notice is in the text of \<open>info\<close> only.
  And with the corpus whose query returns the record \<open>rec_blank\<close>, with a budget of 30
  tokens, the rewrite and the query succeed and \<open>run\<close> returns
  \<open>can not seach related information.\<close>: the empty field has no token and line 81
  divides by zero.
\<close>

theorem C2_counterexample:
  "map_option returned
     (run char_tokens (cut_list char_tokens) where_columns zero_draws look_up scenario_query)
     = Some (''[{'' @ [CHR 0x22] @ ''color'' @ [CHR 0x22] @ '': '' @ [CHR 0x22] @ ''coffee''
             @ [CHR 0x22] @ ''}, {'' @ [CHR 0x22] @ ''color'' @ [CHR 0x22] @ '': '' @ [CHR 0x22]
             @ ''cream'' @ [CHR 0x22] @ ''}]'')
   \<and> map_option final_info
     (run char_tokens (cut_list char_tokens) where_columns zero_draws look_up scenario_query)
     = Some (''look_up: The input SQL is rewritten as '' @ grounded_query @ '' because some ''
             @ categorical_keys items_corpus @ '' are not existing. '' @ [CHR 0x0A]
             @ ''look_up search result: ''
             @ ''[{'' @ [CHR 0x22] @ ''color'' @ [CHR 0x22] @ '': '' @ [CHR 0x22] @ ''coffee''
             @ [CHR 0x22] @ ''}, {'' @ [CHR 0x22] @ ''color'' @ [CHR 0x22] @ '': '' @ [CHR 0x22]
             @ ''cream'' @ [CHR 0x22] @ ''}]'')
   \<and> rewrite_sql where_columns (item_corpus blank_look_up) scenario_query = Inr grounded_query
   \<and> execute (item_corpus blank_look_up) grounded_query = Inr [rec_blank]
   \<and> map_option returned
     (run char_tokens (cut_list char_tokens) where_columns zero_draws blank_look_up scenario_query)
     = Some ''can not seach related information.''"
proof -
  have f: "item_corpus blank_look_up = blank_corpus"
    by (simp add: blank_look_up_def QueryTool_init_def)
  have e: "execute (item_corpus blank_look_up) grounded_query = Inr [rec_blank]"
    by (simp add: blank_look_up_def QueryTool_init_def blank_corpus_def)
  have rw: "rewrite_sql where_columns (item_corpus blank_look_up) scenario_query = Inr grounded_query"
    using scenario_rewrite_blank by (simp add: f)
  have a: "map_option returned
     (run char_tokens (cut_list char_tokens) where_columns zero_draws look_up scenario_query)
     = Some (''[{'' @ [CHR 0x22] @ ''color'' @ [CHR 0x22] @ '': '' @ [CHR 0x22] @ ''coffee''
             @ [CHR 0x22] @ ''}, {'' @ [CHR 0x22] @ ''color'' @ [CHR 0x22] @ '': '' @ [CHR 0x22]
             @ ''cream'' @ [CHR 0x22] @ ''}]'')
   \<and> map_option final_info
     (run char_tokens (cut_list char_tokens) where_columns zero_draws look_up scenario_query)
     = Some (''look_up: The input SQL is rewritten as '' @ grounded_query @ '' because some ''
             @ categorical_keys items_corpus @ '' are not existing. '' @ [CHR 0x0A]
             @ ''look_up search result: ''
             @ ''[{'' @ [CHR 0x22] @ ''color'' @ [CHR 0x22] @ '': '' @ [CHR 0x22] @ ''coffee''
             @ [CHR 0x22] @ ''}, {'' @ [CHR 0x22] @ ''color'' @ [CHR 0x22] @ '': '' @ [CHR 0x22]
             @ ''cream'' @ [CHR 0x22] @ ''}]'')"
    by (simp add: run_look_up json_two_records rewrite_notice_def)
  show ?thesis using a rw e run_blank_look_up by blast
qed

end
